theory Spec2Isabelle
  imports Complex_Main "HOL-Library.Word"
begin

section \<open>Pairwise alignment (Align/PairwiseAlignment.cpp)\<close>

subsection \<open>Data model\<close>

text \<open>
  The exceptions of the library and its fatal macro, as values.  \<open>InvalidInputError\<close> and
  \<open>UnsupportedFeatureError\<close> are thrown by the code; \<open>InternalError\<close> stands for
  \<open>ShouldNotReachHere()\<close> and \<open>AssertionFailed\<close> for a failing \<open>assert\<close>.
\<close>

datatype error = InvalidInputError | UnsupportedFeatureError | InternalError | AssertionFailed

text \<open>
  \<open>class PairwiseAlignment\<close>: the private members \<open>target_\<close>, \<open>query_\<close> and
  \<open>transcript_\<close>, with the accessors \<open>Target()\<close>, \<open>Query()\<close> and \<open>Transcript()\<close>.
\<close>

record PairwiseAlignment =
  Target :: string
  Query :: string
  Transcript :: string

text \<open>
  The constructor \<open>PairwiseAlignment(target, query)\<close>.  \<open>transcript_\<close> starts as
  \<open>target_.length()\<close> copies of \<open>'Z'\<close>; the loop over \<open>i\<close> overwrites position \<open>i\<close>
  or throws.
\<close>

definition transcriptChar :: "char \<Rightarrow> char \<Rightarrow> char" where
  "transcriptChar t q =
     (if t = q then CHR ''M''
      else if t = CHR ''-'' then CHR ''I''
      else if q = CHR ''-'' then CHR ''D''
      else CHR ''R'')"

function ctor_loop :: "string \<Rightarrow> string \<Rightarrow> nat \<Rightarrow> string \<Rightarrow> error + string" where
  "ctor_loop target query i transcript =
     (if i < length target then
        (let t = target ! i; q = query ! i in
         if t = CHR ''-'' \<and> q = CHR ''-'' then Inl InvalidInputError
         else ctor_loop target query (Suc i) (transcript[i := transcriptChar t q]))
      else Inr transcript)"
  by pat_completeness auto
termination
  by (relation "measure (\<lambda>(target, query, i, transcript). length target - i)") auto

declare ctor_loop.simps [simp del]

definition newPairwiseAlignment :: "string \<Rightarrow> string \<Rightarrow> error + PairwiseAlignment" where
  "newPairwiseAlignment target query =
     (if length target \<noteq> length query then Inl InvalidInputError
      else case ctor_loop target query 0 (replicate (length target) (CHR ''Z'')) of
             Inl e \<Rightarrow> Inl e
           | Inr tr \<Rightarrow> Inr \<lparr>Target = target, Query = query, Transcript = tr\<rparr>)"

text \<open>
  \<open>PairwiseAlignment::FromTranscript\<close>.  The loop state is the two aligned strings built so
  far and the two read positions; \<open>None\<close> is the \<open>return NULL\<close> inside the loop.  A read
  at or past the end of an unaligned string yields the character \<open>'\0'\<close>, as the
  conditional expressions of the source do.
\<close>

definition NUL :: char where
  "NUL = char_of (0::nat)"

fun ft_loop ::
  "string \<Rightarrow> string \<Rightarrow> string \<Rightarrow> string \<times> string \<times> nat \<times> nat
     \<Rightarrow> (string \<times> string \<times> nat \<times> nat) option" where
  "ft_loop [] unalnTarget unalnQuery st = Some st"
| "ft_loop (x # xs) unalnTarget unalnQuery (alnTarget, alnQuery, tPos, qPos) =
     (if tPos > length unalnTarget \<or> qPos > length unalnQuery then None
      else
        let t = (if tPos < length unalnTarget then unalnTarget ! tPos else NUL);
            q = (if qPos < length unalnQuery then unalnQuery ! qPos else NUL)
        in
          if x = CHR ''M'' then
            (if t \<noteq> q then None
             else ft_loop xs unalnTarget unalnQuery
                    (alnTarget @ [t], alnQuery @ [q], Suc tPos, Suc qPos))
          else if x = CHR ''R'' then
            (if t = q then None
             else ft_loop xs unalnTarget unalnQuery
                    (alnTarget @ [t], alnQuery @ [q], Suc tPos, Suc qPos))
          else if x = CHR ''I'' then
            ft_loop xs unalnTarget unalnQuery
              (alnTarget @ [CHR ''-''], alnQuery @ [q], tPos, Suc qPos)
          else if x = CHR ''D'' then
            ft_loop xs unalnTarget unalnQuery
              (alnTarget @ [t], alnQuery @ [CHR ''-''], Suc tPos, qPos)
          else None)"

text \<open>
  The result of \<open>FromTranscript\<close>: \<open>Inr None\<close> is the returned \<open>NULL\<close>,
  \<open>Inr (Some a)\<close> the new alignment and \<open>Inl e\<close> an exception thrown by the constructor
  that the last line calls.
\<close>

definition FromTranscript ::
  "string \<Rightarrow> string \<Rightarrow> string \<Rightarrow> error + PairwiseAlignment option" where
  "FromTranscript transcript unalnTarget unalnQuery =
     (case ft_loop transcript unalnTarget unalnQuery ([], [], 0, 0) of
        None \<Rightarrow> Inr None
      | Some (alnTarget, alnQuery, tPos, qPos) \<Rightarrow>
          if tPos \<noteq> length unalnTarget \<or> qPos \<noteq> length unalnQuery then Inr None
          else (case newPairwiseAlignment alnTarget alnQuery of
                  Inl e \<Rightarrow> Inl e
                | Inr a \<Rightarrow> Inr (Some a)))"

text \<open>Removing the gap character from an aligned string.\<close>

definition strip_gaps :: "string \<Rightarrow> string" where
  "strip_gaps s = filter (\<lambda>c. c \<noteq> CHR ''-'') s"

text \<open>
  Column \<open>k\<close> of an aligned pair holds the gap character in both strings: the test of
  the constructor's first branch.
\<close>

definition gapColumn :: "string \<Rightarrow> string \<Rightarrow> nat \<Rightarrow> bool" where
  "gapColumn target query k \<longleftrightarrow>
     k < length target \<and> target ! k = CHR ''-'' \<and> query ! k = CHR ''-''"

text \<open>
  The claim's notion of a transcript that threads through two unaligned strings, in the
  words of the specification: an \<open>M\<close> column takes one character of each string, and the
  two agree; an \<open>R\<close> column takes one character of each, and they differ; an \<open>I\<close>
  column takes a query character, a \<open>D\<close> column a target character; no other symbol
  occurs; and at the end of the transcript both strings are used up.
\<close>

fun threads :: "string \<Rightarrow> string \<Rightarrow> string \<Rightarrow> bool" where
  "threads [] ts qs = (ts = [] \<and> qs = [])"
| "threads (x # xs) ts qs =
     (if x = CHR ''M'' then
        (case (ts, qs) of (t # ts', q # qs') \<Rightarrow> t = q \<and> threads xs ts' qs' | _ \<Rightarrow> False)
      else if x = CHR ''R'' then
        (case (ts, qs) of (t # ts', q # qs') \<Rightarrow> t \<noteq> q \<and> threads xs ts' qs' | _ \<Rightarrow> False)
      else if x = CHR ''I'' then
        (case qs of q # qs' \<Rightarrow> threads xs ts qs' | [] \<Rightarrow> False)
      else if x = CHR ''D'' then
        (case ts of t # ts' \<Rightarrow> threads xs ts' qs | [] \<Rightarrow> False)
      else False)"

text \<open>
  The loop of \<open>FromTranscript\<close> followed by the test after it: the loop did not return
  \<open>NULL\<close> and both strings were consumed exactly.
\<close>

definition ft_ok :: "string \<Rightarrow> string \<Rightarrow> string \<Rightarrow> string \<times> string \<times> nat \<times> nat \<Rightarrow> bool" where
  "ft_ok xs uT uQ st =
     (case ft_loop xs uT uQ st of
        None \<Rightarrow> False
      | Some (aT, aQ, tP, qP) \<Rightarrow> tP = length uT \<and> qP = length uQ)"

subsection \<open>Lifting target coordinates into query coordinates\<close>

text \<open>
  \<open>addsToTarget\<close>, \<open>targetLength\<close> and their query-side twins, which the source counts
  with \<open>std::count_if\<close>.
\<close>

definition addsToTarget :: "char \<Rightarrow> bool" where
  "addsToTarget c \<longleftrightarrow> c = CHR ''M'' \<or> c = CHR ''R'' \<or> c = CHR ''D''"

definition targetLength :: "string \<Rightarrow> nat" where
  "targetLength alignmentTranscript = length (filter addsToTarget alignmentTranscript)"

definition addsToQuery :: "char \<Rightarrow> bool" where
  "addsToQuery c \<longleftrightarrow> c = CHR ''M'' \<or> c = CHR ''R'' \<or> c = CHR ''I''"

definition queryLength :: "string \<Rightarrow> nat" where
  "queryLength alignmentTranscript = length (filter addsToQuery alignmentTranscript)"

text \<open>
  \<open>TargetToQueryPositions\<close>: the loop over the transcript pushes onto \<open>ntp\<close> and advances
  the two positions; a character outside \<open>M, R, D, I\<close> reaches \<open>ShouldNotReachHere()\<close>.
  After the loop the query position is pushed once more and the two assertions are
  checked.
\<close>

fun ttq_loop :: "string \<Rightarrow> int list \<times> int \<times> int \<Rightarrow> error + int list \<times> int \<times> int" where
  "ttq_loop [] st = Inr st"
| "ttq_loop (c # cs) (ntp, targetPos, queryPos) =
     (if c = CHR ''M'' \<or> c = CHR ''R'' then
        ttq_loop cs (ntp @ [queryPos], targetPos + 1, queryPos + 1)
      else if c = CHR ''D'' then
        ttq_loop cs (ntp @ [queryPos], targetPos + 1, queryPos)
      else if c = CHR ''I'' then
        ttq_loop cs (ntp, targetPos, queryPos + 1)
      else Inl InternalError)"

definition TargetToQueryPositions :: "string \<Rightarrow> error + int list" where
  "TargetToQueryPositions transcript =
     (case ttq_loop transcript ([], 0, 0) of
        Inl e \<Rightarrow> Inl e
      | Inr (ntp, targetPos, queryPos) \<Rightarrow>
          let ntp' = ntp @ [queryPos] in
          if length ntp' \<noteq> targetLength transcript + 1 then Inl AssertionFailed
          else if ntp' ! targetLength transcript \<noteq> int (queryLength transcript)
          then Inl AssertionFailed
          else Inr ntp')"

text \<open>
  The per-symbol rules of the specification, read as a recursion on the transcript from
  the current query offset: \<open>M\<close> or \<open>R\<close> emits the offset and advances it; \<open>D\<close> emits
  it; \<open>I\<close> advances it without emitting; at the end the offset is emitted.
\<close>

fun lifted_positions :: "string \<Rightarrow> int \<Rightarrow> int list" where
  "lifted_positions [] qPos = [qPos]"
| "lifted_positions (c # cs) qPos =
     (if c = CHR ''M'' \<or> c = CHR ''R'' then qPos # lifted_positions cs (qPos + 1)
      else if c = CHR ''D'' then qPos # lifted_positions cs qPos
      else lifted_positions cs (qPos + 1))"

subsection \<open>Global alignment\<close>

text \<open>
  The scores are C++ \<open>int\<close>s: 32-bit words in two's complement.  Addition and
  multiplication wrap around, which is what the compiled code does when a score
  overflows, and the comparisons are signed.
\<close>

type_synonym cint = "32 word"

text \<open>
  Modelled from the spec: \<open>AlignConfig.hpp\<close> is not among the sources.  The
  configuration holds the four integer scores \<open>(match, mismatch, insert, delete)\<close> and
  the mode.
\<close>

record AlignParams =
  Match :: cint
  Mismatch :: cint
  Insert :: cint
  Delete :: cint

datatype AlignMode = GLOBAL | SEMIGLOBAL | LOCAL

record AlignConfig =
  Params :: AlignParams
  Mode :: AlignMode

text \<open>
  Modelled from the spec: \<open>Max3\<close> and \<open>ArgMax3\<close> come from \<open>Utils.hpp\<close>, which is not
  among the sources.  \<open>Max3\<close> is the maximum of the recurrence and \<open>ArgMax3\<close> the
  index of the maximum, both by the signed values, with the tie-break of the traceback:
  the diagonal first, then insert, then delete.
\<close>

definition ArgMax3 :: "cint \<Rightarrow> cint \<Rightarrow> cint \<Rightarrow> nat" where
  "ArgMax3 a b c =
     (if sint a \<ge> sint b \<and> sint a \<ge> sint c then 0 else if sint b \<ge> sint c then 1 else 2)"

definition Max3 :: "cint \<Rightarrow> cint \<Rightarrow> cint \<Rightarrow> cint" where
  "Max3 a b c =
     (if sint a \<ge> sint b \<and> sint a \<ge> sint c then a else if sint b \<ge> sint c then b else c)"

text \<open>
  The score matrix \<open>Score\<close>, indexed by row \<open>i\<close> (query) and column \<open>j\<close> (target), with
  the assignment \<open>Score(i, j) = v\<close>.  The loop counters \<open>i\<close> and \<open>j\<close> are natural
  numbers here; in the products \<open>i * params.Insert\<close> and \<open>j * params.Delete\<close> they are
  \<open>int\<close>s.
\<close>

type_synonym matrix = "nat \<Rightarrow> nat \<Rightarrow> cint"

definition assign :: "matrix \<Rightarrow> nat \<Rightarrow> nat \<Rightarrow> cint \<Rightarrow> matrix" where
  "assign Score i j v = Score(i := (Score i)(j := v))"

text \<open>The three candidates of a cell \<open>(i, j)\<close> with \<open>i, j > 0\<close>, as both loops compute them.\<close>

definition diagScore :: "AlignParams \<Rightarrow> string \<Rightarrow> string \<Rightarrow> matrix \<Rightarrow> nat \<Rightarrow> nat \<Rightarrow> cint" where
  "diagScore params target query Score i j =
     (let isMatch = (query ! (i - 1) = target ! (j - 1)) in
      Score (i - 1) (j - 1) + (if isMatch then Match params else Mismatch params))"

definition insScore :: "AlignParams \<Rightarrow> matrix \<Rightarrow> nat \<Rightarrow> nat \<Rightarrow> cint" where
  "insScore params Score i j = Score (i - 1) j + Insert params"

definition delScore :: "AlignParams \<Rightarrow> matrix \<Rightarrow> nat \<Rightarrow> nat \<Rightarrow> cint" where
  "delScore params Score i j = Score i (j - 1) + Delete params"

text \<open>
  The four loops that fill the matrix, each a fold over its index range: column 0, row 0,
  and the rows of the interior from left to right.
\<close>

definition fillColumn0 :: "AlignParams \<Rightarrow> nat \<Rightarrow> matrix \<Rightarrow> matrix" where
  "fillColumn0 params I Score =
     fold (\<lambda>i S. assign S i 0 (of_nat i * Insert params)) [1..<Suc I] Score"

definition fillRow0 :: "AlignParams \<Rightarrow> nat \<Rightarrow> matrix \<Rightarrow> matrix" where
  "fillRow0 params J Score =
     fold (\<lambda>j S. assign S 0 j (of_nat j * Delete params)) [1..<Suc J] Score"

definition fillCell :: "AlignParams \<Rightarrow> string \<Rightarrow> string \<Rightarrow> nat \<Rightarrow> nat \<Rightarrow> matrix \<Rightarrow> matrix" where
  "fillCell params target query i j S =
     assign S i j (Max3 (diagScore params target query S i j)
                        (insScore params S i j) (delScore params S i j))"

definition fillRow :: "AlignParams \<Rightarrow> string \<Rightarrow> string \<Rightarrow> nat \<Rightarrow> matrix \<Rightarrow> matrix" where
  "fillRow params target query i Score =
     fold (fillCell params target query i) [1..<Suc (length target)] Score"

definition fillInterior :: "AlignParams \<Rightarrow> string \<Rightarrow> string \<Rightarrow> matrix \<Rightarrow> matrix" where
  "fillInterior params target query Score =
     fold (fillRow params target query) [1..<Suc (length query)] Score"

text \<open>
  The matrix after the loops, from the freshly allocated matrix \<open>Score0\<close>, whose
  contents the constructor of the matrix leaves unspecified.
\<close>

definition scoreMatrix :: "AlignParams \<Rightarrow> string \<Rightarrow> string \<Rightarrow> matrix \<Rightarrow> matrix" where
  "scoreMatrix params target query Score0 =
     fillInterior params target query
       (fillRow0 params (length target)
          (fillColumn0 params (length query) (assign Score0 0 0 0)))"

text \<open>
  The traceback loop, from \<open>(i, j)\<close> down to \<open>(0, 0)\<close>, pushing onto the reversed aligned
  query and target.  \<open>ArgMax3\<close> returns 0, 1 or 2 only, so the last branch is the
  source's \<open>move == 2\<close>.
\<close>

function traceback ::
  "AlignParams \<Rightarrow> string \<Rightarrow> string \<Rightarrow> matrix \<Rightarrow> nat \<Rightarrow> nat \<Rightarrow> string \<Rightarrow> string
     \<Rightarrow> string \<times> string" where
  "traceback params target query Score i j raQuery raTarget =
     (if i > 0 \<or> j > 0 then
        (let move =
           (if i = 0 then 2
            else if j = 0 then 1
            else ArgMax3 (diagScore params target query Score i j)
                         (insScore params Score i j) (delScore params Score i j))
         in
           if move = 0 then
             traceback params target query Score (i - 1) (j - 1)
               (raQuery @ [query ! (i - 1)]) (raTarget @ [target ! (j - 1)])
           else if move = 1 then
             traceback params target query Score (i - 1) j
               (raQuery @ [query ! (i - 1)]) (raTarget @ [CHR ''-''])
           else
             traceback params target query Score i (j - 1)
               (raQuery @ [CHR ''-'']) (raTarget @ [target ! (j - 1)]))
      else (raQuery, raTarget))"
  by pat_completeness auto
termination
  apply (relation "measure (\<lambda>(params, target, query, Score, i, j, raQuery, raTarget). i + j)")
     apply simp
  subgoal for params target query Score i j
    by (cases "i = 0"; cases "j = 0"; simp)
  subgoal for params target query Score i j
    by (cases "i = 0"; cases "j = 0"; simp)
  subgoal for params target query Score i j
    by (cases "i = 0"; cases "j = 0"; simp)
  done

declare traceback.simps [simp del]

text \<open>
  \<open>Align\<close>, with the matrix allocated as zeros.  The first component of the result is
  the value stored through the \<open>score\<close> pointer (stored before the traceback, so also
  when the constructor called on the last line throws); the second is the returned
  alignment or the exception.
\<close>

definition Align ::
  "string \<Rightarrow> string \<Rightarrow> AlignConfig \<Rightarrow> cint option \<times> (error + PairwiseAlignment)" where
  "Align target query config =
     (let params = Params config in
      if Mode config \<noteq> GLOBAL then (None, Inl UnsupportedFeatureError)
      else
        let I = length query; J = length target;
            Score = scoreMatrix params target query (\<lambda>i j. 0);
            (raQuery, raTarget) = traceback params target query Score I J [] []
        in (Some (Score I J), newPairwiseAlignment (rev raTarget) (rev raQuery)))"

text \<open>
  The recurrence of the specification as a function of the cell, in the arithmetic of
  the program: row 0 is \<open>j \<cdot> delete\<close>, column 0 is \<open>i \<cdot> insert\<close>, and an interior cell
  is the maximum of its three candidates.
\<close>

fun nw :: "AlignParams \<Rightarrow> string \<Rightarrow> string \<Rightarrow> nat \<Rightarrow> nat \<Rightarrow> cint" where
  "nw params target query 0 j = of_nat j * Delete params"
| "nw params target query (Suc i) 0 = of_nat (Suc i) * Insert params"
| "nw params target query (Suc i) (Suc j) =
     Max3 (nw params target query i j
            + (if query ! i = target ! j then Match params else Mismatch params))
          (nw params target query i (Suc j) + Insert params)
          (nw params target query (Suc i) j + Delete params)"

text \<open>
  The same recurrence over the integers, in the words of the specification, for scores
  \<open>(match, mismatch, insert, delete)\<close> that are integers.
\<close>

fun nw_int :: "int \<Rightarrow> int \<Rightarrow> int \<Rightarrow> int \<Rightarrow> string \<Rightarrow> string \<Rightarrow> nat \<Rightarrow> nat \<Rightarrow> int" where
  "nw_int m r ins del target query 0 j = int j * del"
| "nw_int m r ins del target query (Suc i) 0 = int (Suc i) * ins"
| "nw_int m r ins del target query (Suc i) (Suc j) =
     max (nw_int m r ins del target query i j + (if query ! i = target ! j then m else r))
         (max (nw_int m r ins del target query i (Suc j) + ins)
              (nw_int m r ins del target query (Suc i) j + del))"

text \<open>
  What the traceback has pushed since a given state, read backwards: two strings of
  equal length that spell the first \<open>j\<close> target characters and the first \<open>i\<close> query
  characters once the gaps are removed, with no column of two gaps.
\<close>

definition noGapPair :: "string \<Rightarrow> string \<Rightarrow> bool" where
  "noGapPair bt bq \<longleftrightarrow> (\<forall>(a, b) \<in> set (zip bt bq). \<not> (a = CHR ''-'' \<and> b = CHR ''-''))"

definition tb_ok ::
  "string \<Rightarrow> string \<Rightarrow> nat \<Rightarrow> nat \<Rightarrow> string \<Rightarrow> string \<Rightarrow> string \<times> string \<Rightarrow> bool" where
  "tb_ok target query i j raQuery raTarget res \<longleftrightarrow>
     (\<exists>bq bt. res = (raQuery @ bq, raTarget @ bt)
       \<and> length bq = length bt
       \<and> strip_gaps (rev bt) = take j target \<and> strip_gaps (rev bq) = take i query
       \<and> noGapPair bt bq)"

text \<open>An example parameter set: a match scores 0, every edit \<open>-1\<close>.\<close>

definition editParams :: AlignParams where
  "editParams = \<lparr>Match = 0, Mismatch = -1, Insert = -1, Delete = -1\<rparr>"

section \<open>The partial-order alignment graph (Poa/PoaGraphTraversals.cpp)\<close>

subsection \<open>Data model\<close>

text \<open>
  Modelled from the spec: \<open>PoaGraphImpl.hpp\<close> and \<open>PoaNode.hpp\<close> are not among the
  sources.  A vertex descriptor \<open>VD\<close> is a number; a variable that may hold
  \<open>null_vertex\<close> is a \<open>VD option\<close>.  A \<open>PoaNode\<close> carries the base, the number of reads
  through the vertex, the number of reads spanning it, and the two transient scores.
  The scores are C++ \<open>float\<close>s, modelled as real numbers; every rounded operation goes
  through a rounding function \<open>rnd\<close>, a parameter of the model about which nothing is
  assumed.
\<close>

type_synonym VD = nat

record PoaNode =
  Base :: char
  Reads :: int
  SpanningReads :: int
  Score :: real
  ReachingScore :: real

text \<open>
  The members of \<open>PoaGraphImpl\<close> that the traversals use: the graph \<open>g_\<close> as its number
  of vertices and its edges in insertion order, the property map \<open>vertexInfoMap_\<close>, the two
  terminal vertices and the number of reads.
\<close>

record PoaGraphImpl =
  numVertices :: nat
  edges :: "(VD \<times> VD) list"
  vertexInfoMap :: "VD \<Rightarrow> PoaNode"
  enterVertex :: VD
  exitVertex :: VD
  NumReads :: int

text \<open>
  \<open>tagSpan\<close>.  The list \<open>sortedVertices\<close> is what \<open>boost::topological_sort\<close> writes;
  it is a parameter here.  The two arguments may hold \<open>null_vertex\<close>, which is no vertex
  of the list.  The loop carries the flag \<open>spanning\<close>; the \<open>break\<close> returns the map as
  it is.
\<close>

fun tagSpan_loop ::
  "VD option \<Rightarrow> VD option \<Rightarrow> VD list \<Rightarrow> bool \<Rightarrow> (VD \<Rightarrow> PoaNode) \<Rightarrow> (VD \<Rightarrow> PoaNode)" where
  "tagSpan_loop start end [] spanning info = info"
| "tagSpan_loop start end (v # vs) spanning info =
     (let spanning = (if Some v = start then True else spanning) in
      if Some v = end then info
      else tagSpan_loop start end vs spanning
             (if spanning
              then info(v := (info v)\<lparr>SpanningReads := SpanningReads (info v) + 1\<rparr>)
              else info))"

definition tagSpan :: "VD list \<Rightarrow> VD option \<Rightarrow> VD option \<Rightarrow> PoaGraphImpl \<Rightarrow> PoaGraphImpl" where
  "tagSpan sortedVertices start end g =
     g\<lparr>vertexInfoMap := tagSpan_loop start end sortedVertices False (vertexInfoMap g)\<rparr>"

text \<open>
  The vertices that the claim describes: \<open>w\<close> stands in the order at or after \<open>start\<close>
  (or the flag was already set) and strictly before \<open>end\<close>.
\<close>

definition tagged :: "VD option \<Rightarrow> VD option \<Rightarrow> VD list \<Rightarrow> bool \<Rightarrow> VD \<Rightarrow> bool" where
  "tagged start end vs spanning w \<longleftrightarrow>
     (\<exists>pre post. vs = pre @ w # post
        \<and> (spanning \<or> start \<in> Some ` set (pre @ [w])) \<and> end \<notin> Some ` set (pre @ [w]))"

text \<open>
  An example graph: the chain \<open>^ \<rightarrow> G \<rightarrow> G \<rightarrow> G \<rightarrow> $\<close> of the first test of
  \<open>TestPoaConsensus.cpp\<close>, with vertex 0 for \<open>^\<close> and vertex 1 for \<open>$\<close>.
\<close>

definition node :: "char \<Rightarrow> int \<Rightarrow> int \<Rightarrow> PoaNode" where
  "node base reads spanning =
     \<lparr>Base = base, Reads = reads, SpanningReads = spanning, Score = 0, ReachingScore = 0\<rparr>"

definition chainGGG :: PoaGraphImpl where
  "chainGGG =
     \<lparr>numVertices = 5, edges = [(0, 2), (2, 3), (3, 4), (4, 1)],
      vertexInfoMap = (\<lambda>v. if v = 0 then node (CHR ''^'') 0 0
                           else if v = 1 then node (CHR ''$'') 0 0
                           else node (CHR ''G'') 1 0),
      enterVertex = 0, exitVertex = 1, NumReads = 1\<rparr>"

subsection \<open>The consensus path\<close>

text \<open>
  \<open>inEdges(v, g_)\<close>, in the order in which the edges were added; \<open>source(e, g_)\<close> is the
  first component of an edge.
\<close>

definition inEdges :: "VD \<Rightarrow> PoaGraphImpl \<Rightarrow> (VD \<times> VD) list" where
  "inEdges v g = filter (\<lambda>e. snd e = v) (edges g)"

text \<open>
  The score of a vertex.  The integer expression is computed in \<open>int\<close>, converted to
  \<open>float\<close>, and the \<open>float\<close> constant \<open>0.0001f\<close> is subtracted.
\<close>

definition nodeScore :: "(real \<Rightarrow> real) \<Rightarrow> AlignMode \<Rightarrow> int \<Rightarrow> int \<Rightarrow> int \<Rightarrow> int \<Rightarrow> real" where
  "nodeScore rnd mode containingReads spanningReads minCoverage totalReads =
     (if mode \<noteq> GLOBAL
      then rnd (rnd (real_of_int (2 * containingReads - 1 * max spanningReads minCoverage))
                - rnd (1 / 10000))
      else rnd (rnd (real_of_int (2 * containingReads - 1 * totalReads)) - rnd (1 / 10000)))"

text \<open>
  The variables that the loop over the sorted vertices updates: the property map, the map
  \<open>bestPrevVertex\<close> (a missing key reads as \<open>null_vertex\<close>), \<open>bestVertex\<close> and
  \<open>bestReachingScore\<close>.
\<close>

record cp_state =
  info :: "VD \<Rightarrow> PoaNode"
  bestPrevVertex :: "VD \<Rightarrow> VD option"
  bestVertex :: "VD option"
  bestReachingScore :: real

text \<open>The body of the inner loop, for one in-edge \<open>e\<close> of \<open>v\<close>.\<close>

definition cp_edge :: "(real \<Rightarrow> real) \<Rightarrow> real \<Rightarrow> VD \<Rightarrow> VD \<times> VD \<Rightarrow> cp_state \<Rightarrow> cp_state" where
  "cp_edge rnd score v e st =
     (let sourceVertex = fst e;
          rsc = rnd (score + ReachingScore (info st sourceVertex));
          st1 = (if rsc > ReachingScore (info st v)
                 then st\<lparr>info := (info st)(v := (info st v)\<lparr>ReachingScore := rsc\<rparr>),
                         bestPrevVertex := (bestPrevVertex st)(v := Some sourceVertex)\<rparr>
                 else st)
      in if rsc > bestReachingScore st1
         then st1\<lparr>bestVertex := Some v, bestReachingScore := rsc\<rparr>
         else st1)"

text \<open>The body of the outer loop, for one vertex \<open>v\<close>.\<close>

definition cp_vertex ::
  "(real \<Rightarrow> real) \<Rightarrow> AlignMode \<Rightarrow> int \<Rightarrow> PoaGraphImpl \<Rightarrow> VD \<Rightarrow> cp_state \<Rightarrow> cp_state" where
  "cp_vertex rnd mode minCoverage g v st =
     (let vInfo = info st v;
          containingReads = Reads vInfo;
          spanningReads = SpanningReads vInfo;
          score = nodeScore rnd mode containingReads spanningReads minCoverage (NumReads g);
          st1 = st\<lparr>info := (info st)(v := vInfo\<lparr>Score := score, ReachingScore := score\<rparr>),
                    bestPrevVertex := (bestPrevVertex st)(v := None)\<rparr>
      in fold (cp_edge rnd score v) (inEdges v g) st1)"

text \<open>
  The state after the loop.  \<open>sortedVertices\<close> is the list written by
  \<open>boost::topological_sort\<close>, \<open>FLT_MAX\<close> the constant of \<open>float.h\<close>; the reaching score
  of the front vertex is set to 0, and the loop runs over the list without its first and
  last element.
\<close>

definition consensusDP ::
  "(real \<Rightarrow> real) \<Rightarrow> real \<Rightarrow> VD list \<Rightarrow> AlignMode \<Rightarrow> int \<Rightarrow> PoaGraphImpl \<Rightarrow> cp_state" where
  "consensusDP rnd FLT_MAX sortedVertices mode minCoverage g =
     (let front = hd sortedVertices;
          info0 = (vertexInfoMap g)(front := (vertexInfoMap g front)\<lparr>ReachingScore := 0\<rparr>)
      in fold (cp_vertex rnd mode minCoverage g) (butlast (tl sortedVertices))
           \<lparr>info = info0, bestPrevVertex = (\<lambda>v. None), bestVertex = None,
            bestReachingScore = - FLT_MAX\<rparr>)"

text \<open>
  The traceback from the best vertex along \<open>bestPrevVertex\<close>; \<open>None\<close> is a loop that does
  not end.
\<close>

partial_function (option) cp_traceback ::
  "(VD \<Rightarrow> VD option) \<Rightarrow> VD option \<Rightarrow> VD list \<Rightarrow> VD list option" where
  "cp_traceback bestPrev v path =
     (case v of None \<Rightarrow> Some path
      | Some x \<Rightarrow> cp_traceback bestPrev (bestPrev x) (x # path))"

declare cp_traceback.simps [code]

text \<open>
  \<open>consensusPath\<close>: the path and the graph with the scores written into its property
  map; \<open>None\<close> when the traceback does not end.  The list needs its two terminal
  vertices for the two \<open>pop\<close> calls to be defined.
\<close>

definition consensusPath ::
  "(real \<Rightarrow> real) \<Rightarrow> real \<Rightarrow> VD list \<Rightarrow> AlignMode \<Rightarrow> int \<Rightarrow> PoaGraphImpl
     \<Rightarrow> (error + VD list \<times> PoaGraphImpl) option" where
  "consensusPath rnd FLT_MAX sortedVertices mode minCoverage g =
     (if length sortedVertices < 2 then Some (Inl InternalError)
      else
        let st = consensusDP rnd FLT_MAX sortedVertices mode minCoverage g in
        case bestVertex st of
          None \<Rightarrow> Some (Inl AssertionFailed)
        | Some b \<Rightarrow>
            (case cp_traceback (bestPrevVertex st) (Some b) [] of
               None \<Rightarrow> None
             | Some path \<Rightarrow> Some (Inr (path, g\<lparr>vertexInfoMap := info st\<rparr>))))"

text \<open>
  The order of the claim: every vertex once, and the source of every edge before its
  target.
\<close>

definition topological :: "VD list \<Rightarrow> (VD \<times> VD) list \<Rightarrow> bool" where
  "topological vs es \<longleftrightarrow>
     distinct vs \<and> (\<forall>(a, b) \<in> set es. \<forall>pre post. vs = pre @ b # post \<longrightarrow> a \<in> set pre)"

text \<open>
  Two example graphs.  \<open>graphCA_GA\<close> is the graph of the two reads \<open>CA\<close> and \<open>GA\<close>:
  vertex 2 is \<open>C\<close>, vertex 3 is \<open>A\<close>, vertex 4 is \<open>G\<close>.  In \<open>graphFan\<close> four reads
  reach vertex 6 through four vertices of one read each, and two of them go on to
  vertex 7.
\<close>

definition graphCA_GA :: PoaGraphImpl where
  "graphCA_GA =
     \<lparr>numVertices = 5, edges = [(0, 2), (2, 3), (3, 1), (4, 3), (0, 4)],
      vertexInfoMap = (\<lambda>v. if v = 0 then node (CHR ''^'') 0 0
                           else if v = 1 then node (CHR ''$'') 0 0
                           else if v = 2 then node (CHR ''C'') 1 0
                           else if v = 3 then node (CHR ''A'') 2 1
                           else node (CHR ''G'') 1 0),
      enterVertex = 0, exitVertex = 1, NumReads = 2\<rparr>"

definition graphFan :: PoaGraphImpl where
  "graphFan =
     \<lparr>numVertices = 8,
      edges = [(0, 2), (0, 3), (0, 4), (0, 5), (2, 6), (3, 6), (4, 6), (5, 6),
               (6, 7), (7, 1), (6, 1)],
      vertexInfoMap = (\<lambda>v. if v = 0 then node (CHR ''^'') 0 0
                           else if v = 1 then node (CHR ''$'') 0 0
                           else if v = 6 then node (CHR ''T'') 4 0
                           else if v = 7 then node (CHR ''A'') 2 0
                           else node (CHR ''C'') 1 0),
      enterVertex = 0, exitVertex = 1, NumReads = 4\<rparr>"

text \<open>
  The candidates \<open>rsc\<close> of a vertex with score \<open>score\<close>, one for each of its in-edges,
  from the reaching scores held by the map \<open>nodes\<close>.
\<close>

definition rsc_list :: "(real \<Rightarrow> real) \<Rightarrow> real \<Rightarrow> (VD \<Rightarrow> PoaNode) \<Rightarrow> (VD \<times> VD) list \<Rightarrow> real list" where
  "rsc_list rnd score nodes es = map (\<lambda>e. rnd (score + ReachingScore (nodes (fst e)))) es"

text \<open>The score that the loop assigns to vertex \<open>v\<close>, from the counts held by the map.\<close>

definition scoreOf ::
  "(real \<Rightarrow> real) \<Rightarrow> AlignMode \<Rightarrow> int \<Rightarrow> PoaGraphImpl \<Rightarrow> (VD \<Rightarrow> PoaNode) \<Rightarrow> VD \<Rightarrow> real" where
  "scoreOf rnd mode minCoverage g nodes v =
     nodeScore rnd mode (Reads (nodes v)) (SpanningReads (nodes v)) minCoverage (NumReads g)"

text \<open>
  In the list \<open>ws\<close> of vertices still to be processed, no vertex has an in-edge from
  itself or from a vertex that comes later.
\<close>

definition sources_done :: "PoaGraphImpl \<Rightarrow> VD list \<Rightarrow> bool" where
  "sources_done g ws \<longleftrightarrow>
     (\<forall>pre w post. ws = pre @ w # post \<longrightarrow> (\<forall>e\<in>set (inEdges w g). fst e \<notin> set (w # post)))"

text \<open>
  The best previous vertex of \<open>v\<close> in a state of the loop: none when the reaching score
  of \<open>v\<close> is its own score, else the source of an edge into \<open>v\<close> whose candidate is the
  reaching score of \<open>v\<close> and lies above the score.
\<close>

definition prev_ok :: "(real \<Rightarrow> real) \<Rightarrow> PoaGraphImpl \<Rightarrow> cp_state \<Rightarrow> VD \<Rightarrow> bool" where
  "prev_ok rnd g st v \<longleftrightarrow>
     (case bestPrevVertex st v of
        None \<Rightarrow> ReachingScore (info st v) = Score (info st v)
      | Some u \<Rightarrow> (u, v) \<in> set (edges g)
          \<and> rnd (Score (info st v) + ReachingScore (info st u)) = ReachingScore (info st v)
          \<and> Score (info st v) < ReachingScore (info st v))"

text \<open>The place of a vertex in the sorted list.\<close>

definition rank :: "VD list \<Rightarrow> VD \<Rightarrow> nat" where
  "rank vs x = length (takeWhile (\<lambda>y. y \<noteq> x) vs)"

text \<open>
  The state of the loop for the chain of \<open>GGG\<close>, in \<open>GLOBAL\<close> mode and in exact
  arithmetic.
\<close>

definition dpGGG :: cp_state where
  "dpGGG = consensusDP (\<lambda>x. x) (2 ^ 128) [0, 2, 3, 4, 1] GLOBAL 0 chainGGG"

subsection \<open>Threading reads into the graph\<close>

text \<open>
  Modelled from the spec: the graph operations are not among the sources.  \<open>addVertex\<close>
  hands out the next vertex descriptor for a node with the given base and one read; a
  vertex added in this way is fresh.  \<open>add_edge\<close> is the Boost operation on a graph
  without parallel edges: an edge that exists is not added again.  The graph is created
  with the two terminal vertices alone, \<open>^\<close> as vertex 0 and \<open>$\<close> as vertex 1.
\<close>

definition addVertex :: "char \<Rightarrow> PoaGraphImpl \<Rightarrow> VD \<times> PoaGraphImpl" where
  "addVertex base g =
     (numVertices g,
      g\<lparr>numVertices := Suc (numVertices g),
        vertexInfoMap := (vertexInfoMap g)(numVertices g := node base 1 0)\<rparr>)"

definition add_edge :: "VD \<Rightarrow> VD \<Rightarrow> PoaGraphImpl \<Rightarrow> PoaGraphImpl" where
  "add_edge u v g = (if (u, v) \<in> set (edges g) then g else g\<lparr>edges := edges g @ [(u, v)]\<rparr>)"

definition newGraph :: PoaGraphImpl where
  "newGraph =
     \<lparr>numVertices = 2, edges = [],
      vertexInfoMap = (\<lambda>v. if v = 0 then node (CHR ''^'') 0 0 else node (CHR ''$'') 0 0),
      enterVertex = 0, exitVertex = 1, NumReads = 0\<rparr>"

text \<open>
  \<open>threadFirstRead\<close>, called without an output path.  The loop over the bases carries the
  graph, \<open>u\<close>, \<open>startSpanVertex\<close> and \<open>readPos\<close>; an edge from \<open>null_vertex\<close> is an
  error.  The topological sort that \<open>tagSpan\<close> calls is the parameter \<open>tsort\<close>.
\<close>

fun tfr_loop ::
  "string \<Rightarrow> PoaGraphImpl \<times> VD option \<times> VD option \<times> nat
     \<Rightarrow> error + PoaGraphImpl \<times> VD option \<times> VD option \<times> nat" where
  "tfr_loop [] st = Inr st"
| "tfr_loop (base # rest) (g, u, startSpanVertex, readPos) =
     (let (v, g) = addVertex base g in
      if readPos = 0 then
        tfr_loop rest (add_edge (enterVertex g) v g, Some v, Some v, readPos + 1)
      else
        (case u of
           None \<Rightarrow> Inl InternalError
         | Some u' \<Rightarrow> tfr_loop rest (add_edge u' v g, Some v, startSpanVertex, readPos + 1)))"

definition threadFirstRead ::
  "(PoaGraphImpl \<Rightarrow> VD list) \<Rightarrow> string \<Rightarrow> PoaGraphImpl \<Rightarrow> error + PoaGraphImpl" where
  "threadFirstRead tsort sequence g =
     (case tfr_loop sequence (g, None, None, 0) of
        Inl e \<Rightarrow> Inl e
      | Inr (g, u, startSpanVertex, readPos) \<Rightarrow>
          (case (startSpanVertex, u) of
             (Some s, Some u') \<Rightarrow>
               let endSpanVertex = u;
                   g = add_edge u' (exitVertex g) g
               in Inr (tagSpan (tsort g) startSpanVertex endSpanVertex g)
           | _ \<Rightarrow> Inl AssertionFailed))"

text \<open>
  Modelled from the spec: the alignment columns are computed by code that is not among
  the sources.  A column holds, for each row \<open>0 \<dots> |read|\<close>, a score, the move that
  reaches the cell and the previous vertex; the move tags are those of the
  specification.  \<open>ArgMax\<close> of \<open>Utils.hpp\<close> is the index of the first largest score.
\<close>

datatype MoveType =
  InvalidMove | StartMove | EndMove | MatchMove | MismatchMove | DeleteMove | ExtraMove

record AlignmentColumn =
  CurrentVertex :: VD
  ColumnScore :: "real list"
  ReachingMove :: "nat \<Rightarrow> MoveType"
  PreviousVertex :: "nat \<Rightarrow> VD option"

type_synonym AlignmentColumnMap = "VD \<Rightarrow> AlignmentColumn option"

fun ArgMax_from :: "real list \<Rightarrow> nat \<Rightarrow> nat \<Rightarrow> real \<Rightarrow> nat" where
  "ArgMax_from [] k best bestVal = best"
| "ArgMax_from (x # xs) k best bestVal =
     (if bestVal < x then ArgMax_from xs (Suc k) k x else ArgMax_from xs (Suc k) best bestVal)"

definition ArgMax :: "real list \<Rightarrow> nat" where
  "ArgMax xs = (case xs of [] \<Rightarrow> 0 | x # rest \<Rightarrow> ArgMax_from rest 1 0 x)"

text \<open>
  The two inner loops of \<open>tracebackAndThread\<close>, which thread the read bases
  \<open>sequence[i - 1]\<close> onto the graph through \<open>forkVertex\<close> while \<open>i\<close> is above a bound:
  0 for a start move, \<open>prevRow\<close> for an end move.
\<close>

function threadBases ::
  "string \<Rightarrow> nat \<Rightarrow> PoaGraphImpl \<times> VD \<times> nat \<Rightarrow> PoaGraphImpl \<times> VD \<times> nat" where
  "threadBases sequence bound (g, forkVertex, i) =
     (if i > bound then
        (let (newForkVertex, g) = addVertex (sequence ! (i - 1)) g;
             g = add_edge newForkVertex forkVertex g
         in threadBases sequence bound (g, newForkVertex, i - 1))
      else (g, forkVertex, i))"
  by pat_completeness auto
termination
  by (relation "measure (\<lambda>(sequence, bound, g, forkVertex, i). i)") auto

declare threadBases.simps [simp del]

text \<open>
  The variables of the traceback loop: the graph, \<open>i\<close>, \<open>u\<close>, \<open>v\<close> and
  \<open>forkVertex\<close>.
\<close>

record tt_state =
  tt_graph :: PoaGraphImpl
  tt_i :: nat
  tt_u :: VD
  tt_v :: "VD option"
  tt_fork :: "VD option"

text \<open>
  One iteration of the traceback loop at vertex \<open>u\<close> and row \<open>i\<close>, with \<open>v\<close> the
  vertex visited before.  A missing column is the exception of
  \<open>at\<close>; a move at row 0 that consumes a read base (row \<open>-1\<close> is outside the read and
  the columns), an edge into \<open>null_vertex\<close> and a null previous vertex are errors; the
  assertions are checked.
\<close>

definition tt_step ::
  "string \<Rightarrow> AlignmentColumnMap \<Rightarrow> AlignMode \<Rightarrow> tt_state \<Rightarrow> error + tt_state" where
  "tt_step sequence alignmentColumnForVertex alignMode st =
     (let g = tt_graph st; i = tt_i st; u = tt_u st; v = tt_v st; fork = tt_fork st in
      case alignmentColumnForVertex u of
        None \<Rightarrow> Inl InternalError
      | Some curCol \<Rightarrow>
         (case PreviousVertex curCol i of
            None \<Rightarrow> Inl InternalError
          | Some prevVertex \<Rightarrow>
             (case ReachingMove curCol i of
                StartMove \<Rightarrow>
                  (case v of
                     None \<Rightarrow> Inl AssertionFailed
                   | Some v' \<Rightarrow>
                       let fork' = (case fork of None \<Rightarrow> v' | Some f \<Rightarrow> f) in
                       if i > 0 \<and> alignMode \<noteq> LOCAL then Inl AssertionFailed
                       else
                         let (g, fork', i) = threadBases sequence 0 (g, fork', i) in
                         Inr \<lparr>tt_graph = g, tt_i = i, tt_u = prevVertex, tt_v = Some u,
                              tt_fork = Some fork'\<rparr>)
              | EndMove \<Rightarrow>
                  if \<not> (fork = None \<and> u = exitVertex g \<and> v = None) then Inl AssertionFailed
                  else if alignMode = LOCAL then
                    (case alignmentColumnForVertex prevVertex of
                       None \<Rightarrow> Inl InternalError
                     | Some prevCol \<Rightarrow>
                         let prevRow = ArgMax (ColumnScore prevCol);
                             (g, fork', i) = threadBases sequence prevRow (g, exitVertex g, i)
                         in Inr \<lparr>tt_graph = g, tt_i = i, tt_u = prevVertex, tt_v = Some u,
                                 tt_fork = Some fork'\<rparr>)
                  else Inr \<lparr>tt_graph = g, tt_i = i, tt_u = prevVertex, tt_v = Some u,
                            tt_fork = Some (exitVertex g)\<rparr>
              | MatchMove \<Rightarrow>
                  if i = 0 then Inl InternalError
                  else
                    let g = (case fork of None \<Rightarrow> g | Some f \<Rightarrow> add_edge u f g);
                        g = g\<lparr>vertexInfoMap := (vertexInfoMap g)
                               (u := (vertexInfoMap g u)\<lparr>Reads := Reads (vertexInfoMap g u) + 1\<rparr>)\<rparr>
                    in Inr \<lparr>tt_graph = g, tt_i = i - 1, tt_u = prevVertex, tt_v = Some u,
                            tt_fork = None\<rparr>
              | DeleteMove \<Rightarrow>
                  Inr \<lparr>tt_graph = g, tt_i = i, tt_u = prevVertex, tt_v = Some u,
                       tt_fork = (case fork of None \<Rightarrow> v | Some f \<Rightarrow> Some f)\<rparr>
              | InvalidMove \<Rightarrow> Inl InternalError
              | _ \<Rightarrow>
                  if i = 0 then Inl InternalError
                  else
                    let (newForkVertex, g) = addVertex (sequence ! (i - 1)) g in
                    (case (case fork of None \<Rightarrow> v | Some f \<Rightarrow> Some f) of
                       None \<Rightarrow> Inl InternalError
                     | Some fork' \<Rightarrow>
                         Inr \<lparr>tt_graph = add_edge newForkVertex fork' g, tt_i = i - 1,
                              tt_u = prevVertex, tt_v = Some u,
                              tt_fork = Some newForkVertex\<rparr>))))"

text \<open>The loop: \<open>None\<close> when it does not end.\<close>

partial_function (option) tt_loop ::
  "string \<Rightarrow> AlignmentColumnMap \<Rightarrow> AlignMode \<Rightarrow> tt_state \<Rightarrow> (error + tt_state) option" where
  "tt_loop sequence cols alignMode st =
     (if tt_u st = enterVertex (tt_graph st) \<and> tt_i st = 0 then Some (Inr st)
      else case tt_step sequence cols alignMode st of
             Inl e \<Rightarrow> Some (Inl e)
           | Inr st' \<Rightarrow> tt_loop sequence cols alignMode st')"

declare tt_loop.simps [code]

text \<open>
  \<open>tracebackAndThread\<close>, called without an output path: the end of the span is read from
  the column of \<open>$\<close>, the loop runs from \<open>(I, $)\<close>, the span is tagged and a fork that is
  left is joined to \<open>^\<close>.
\<close>

definition tracebackAndThread ::
  "(PoaGraphImpl \<Rightarrow> VD list) \<Rightarrow> string \<Rightarrow> AlignmentColumnMap \<Rightarrow> AlignMode \<Rightarrow> PoaGraphImpl
     \<Rightarrow> (error + PoaGraphImpl) option" where
  "tracebackAndThread tsort sequence alignmentColumnForVertex alignMode g =
     (let I = length sequence in
      case alignmentColumnForVertex (exitVertex g) of
        None \<Rightarrow> Some (Inl InternalError)
      | Some exitCol \<Rightarrow>
          let endSpanVertex = PreviousVertex exitCol I in
          (case tt_loop sequence alignmentColumnForVertex alignMode
                  \<lparr>tt_graph = g, tt_i = I, tt_u = exitVertex g, tt_v = None, tt_fork = None\<rparr> of
             None \<Rightarrow> None
           | Some (Inl e) \<Rightarrow> Some (Inl e)
           | Some (Inr st) \<Rightarrow>
               let g = tt_graph st;
                   startSpanVertex = tt_v st;
                   g = (if startSpanVertex \<noteq> Some (exitVertex g)
                        then tagSpan (tsort g) startSpanVertex endSpanVertex g else g);
                   g = (case tt_fork st of
                          None \<Rightarrow> g
                        | Some f \<Rightarrow> add_edge (enterVertex g) f g)
               in Some (Inr g)))"

text \<open>
  An example: the columns of the read \<open>TGGG\<close> against the chain of \<open>GGG\<close> in \<open>GLOBAL\<close>
  mode (an extra base at the start, then three matches), and a sort for chains.
\<close>

definition column :: "VD \<Rightarrow> (nat \<Rightarrow> MoveType) \<Rightarrow> (nat \<Rightarrow> VD option) \<Rightarrow> AlignmentColumn" where
  "column v moves prevs =
     \<lparr>CurrentVertex = v, ColumnScore = [], ReachingMove = moves, PreviousVertex = prevs\<rparr>"

definition columnsTGGG :: AlignmentColumnMap where
  "columnsTGGG v =
     (if v = 0 then Some (column 0 (\<lambda>i. if i = 0 then InvalidMove else ExtraMove) (\<lambda>i. Some 0))
      else if v = 1 then Some (column 1 (\<lambda>i. EndMove) (\<lambda>i. Some 4))
      else if v = 2 then Some (column 2 (\<lambda>i. MatchMove) (\<lambda>i. Some 0))
      else if v = 3 then Some (column 3 (\<lambda>i. MatchMove) (\<lambda>i. Some 2))
      else if v = 4 then Some (column 4 (\<lambda>i. MatchMove) (\<lambda>i. Some 3))
      else None)"

definition chainSort :: "PoaGraphImpl \<Rightarrow> VD list" where
  "chainSort g = 0 # [2..<numVertices g] @ [1]"

text \<open>
  The graph of the read \<open>GGG\<close> and the graph after the read \<open>TGGG\<close> is threaded into it
  (both threadings return a graph, so the other branches are not taken).
\<close>

definition graphGGG :: PoaGraphImpl where
  "graphGGG = (case threadFirstRead chainSort ''GGG'' newGraph of Inr g \<Rightarrow> g | Inl e \<Rightarrow> newGraph)"

definition graphTGGG :: PoaGraphImpl where
  "graphTGGG =
     (case tracebackAndThread chainSort ''TGGG'' columnsTGGG GLOBAL graphGGG of
        Some (Inr g) \<Rightarrow> g
      | _ \<Rightarrow> graphGGG)"

text \<open>
  The invariants of the graph that the claim is about: no cycle, every edge between
  vertices of the graph, no edge into \<open>^\<close> and no edge out of \<open>$\<close>.
\<close>

definition Good :: "PoaGraphImpl \<Rightarrow> bool" where
  "Good g \<longleftrightarrow>
     acyclic (set (edges g))
     \<and> (\<forall>(a, b) \<in> set (edges g). a < numVertices g \<and> b < numVertices g)
     \<and> enterVertex g < numVertices g \<and> exitVertex g < numVertices g
     \<and> enterVertex g \<noteq> exitVertex g
     \<and> enterVertex g \<notin> snd ` set (edges g)
     \<and> exitVertex g \<notin> fst ` set (edges g)"

text \<open>
  Modelled from the spec: the cells that the traceback visits, as the recurrence of the
  column computation sets them.  A match, a mismatch or a delete at \<open>(u, i)\<close> comes from
  a predecessor of \<open>u\<close> in the graph (row \<open>i - 1\<close>, or row \<open>i\<close> for a delete); an extra
  base comes from \<open>u\<close> itself at row \<open>i - 1\<close>; a start move leads to \<open>^\<close>, at row 0 or
  in \<open>LOCAL\<close> mode; an end move is the move of \<open>$\<close> and comes from another vertex, in
  \<open>LOCAL\<close> mode at the best row of its column; the walk stops at \<open>(^, 0)\<close>.
\<close>

inductive trace_ok :: "PoaGraphImpl \<Rightarrow> AlignmentColumnMap \<Rightarrow> AlignMode \<Rightarrow> VD \<Rightarrow> nat \<Rightarrow> bool"
  for g :: PoaGraphImpl and cols :: AlignmentColumnMap and mode :: AlignMode where
  stop: "trace_ok g cols mode (enterVertex g) 0"
| startMove:
    "cols u = Some c \<Longrightarrow> ReachingMove c i = StartMove \<Longrightarrow>
     PreviousVertex c i = Some (enterVertex g) \<Longrightarrow> u \<noteq> exitVertex g \<Longrightarrow>
     i = 0 \<or> mode = LOCAL \<Longrightarrow> trace_ok g cols mode u i"
| endMove:
    "cols (exitVertex g) = Some c \<Longrightarrow> ReachingMove c i = EndMove \<Longrightarrow>
     PreviousVertex c i = Some p \<Longrightarrow> p \<noteq> exitVertex g \<Longrightarrow> p < numVertices g \<Longrightarrow>
     mode \<noteq> LOCAL \<Longrightarrow> trace_ok g cols mode p i \<Longrightarrow> trace_ok g cols mode (exitVertex g) i"
| endMoveLocal:
    "cols (exitVertex g) = Some c \<Longrightarrow> ReachingMove c i = EndMove \<Longrightarrow>
     PreviousVertex c i = Some p \<Longrightarrow> p \<noteq> exitVertex g \<Longrightarrow> p < numVertices g \<Longrightarrow>
     mode = LOCAL \<Longrightarrow> cols p = Some pc \<Longrightarrow>
     trace_ok g cols mode p (min i (ArgMax (ColumnScore pc))) \<Longrightarrow>
     trace_ok g cols mode (exitVertex g) i"
| matchMove:
    "cols u = Some c \<Longrightarrow> ReachingMove c i = MatchMove \<Longrightarrow> 0 < i \<Longrightarrow>
     PreviousVertex c i = Some p \<Longrightarrow> (p, u) \<in> set (edges g) \<Longrightarrow> u \<noteq> exitVertex g \<Longrightarrow>
     trace_ok g cols mode p (i - 1) \<Longrightarrow> trace_ok g cols mode u i"
| mismatchMove:
    "cols u = Some c \<Longrightarrow> ReachingMove c i = MismatchMove \<Longrightarrow> 0 < i \<Longrightarrow>
     PreviousVertex c i = Some p \<Longrightarrow> (p, u) \<in> set (edges g) \<Longrightarrow> u \<noteq> exitVertex g \<Longrightarrow>
     trace_ok g cols mode p (i - 1) \<Longrightarrow> trace_ok g cols mode u i"
| deleteMove:
    "cols u = Some c \<Longrightarrow> ReachingMove c i = DeleteMove \<Longrightarrow>
     PreviousVertex c i = Some p \<Longrightarrow> (p, u) \<in> set (edges g) \<Longrightarrow> u \<noteq> exitVertex g \<Longrightarrow>
     trace_ok g cols mode p i \<Longrightarrow> trace_ok g cols mode u i"
| extraMove:
    "cols u = Some c \<Longrightarrow> ReachingMove c i = ExtraMove \<Longrightarrow> 0 < i \<Longrightarrow>
     PreviousVertex c i = Some u \<Longrightarrow> u \<noteq> exitVertex g \<Longrightarrow>
     trace_ok g cols mode u (i - 1) \<Longrightarrow> trace_ok g cols mode u i"

text \<open>
  The graphs of the claim: the first read is threaded linearly into the new graph, and
  every further read is threaded by a traceback over columns whose walk from
  \<open>($, |read|)\<close> is of the kind above.
\<close>

inductive threaded :: "(PoaGraphImpl \<Rightarrow> VD list) \<Rightarrow> PoaGraphImpl \<Rightarrow> bool"
  for tsort :: "PoaGraphImpl \<Rightarrow> VD list" where
  first_read: "threadFirstRead tsort sequence newGraph = Inr g \<Longrightarrow> threaded tsort g"
| next_read:
    "threaded tsort g \<Longrightarrow>
     trace_ok g cols mode (exitVertex g) (length sequence) \<Longrightarrow>
     tracebackAndThread tsort sequence cols mode g = Some (Inr g') \<Longrightarrow>
     threaded tsort g'"

text \<open>
  Two notions for the proofs about threading.  A graph \<open>g'\<close> extends \<open>g\<close> when it keeps
  the terminal vertices, the edges and the vertices of \<open>g\<close>.  A vertex \<open>f\<close> may become
  the target of an edge that leaves \<open>u\<close>, or a fresh vertex, when it is a vertex other
  than \<open>^\<close> that cannot reach \<open>u\<close>.
\<close>

definition extends :: "PoaGraphImpl \<Rightarrow> PoaGraphImpl \<Rightarrow> bool" where
  "extends g g' \<longleftrightarrow>
     enterVertex g' = enterVertex g \<and> exitVertex g' = exitVertex g
     \<and> set (edges g) \<subseteq> set (edges g') \<and> numVertices g \<le> numVertices g'"

definition fork_ok :: "PoaGraphImpl \<Rightarrow> VD \<Rightarrow> VD \<Rightarrow> bool" where
  "fork_ok g f u \<longleftrightarrow>
     Good g \<and> f < numVertices g \<and> f \<noteq> enterVertex g \<and> u < numVertices g
     \<and> (f, u) \<notin> (set (edges g))\<^sup>*"

text \<open>
  The invariant of the traceback loop over the graph \<open>g0\<close> at its start.  The graph is
  good and extends \<open>g0\<close>; at \<open>$\<close> nothing has been visited; elsewhere the vertex that
  the next edge will enter (the fork, or else the last vertex) cannot reach \<open>u\<close>.
\<close>

definition tt_inv :: "PoaGraphImpl \<Rightarrow> tt_state \<Rightarrow> bool" where
  "tt_inv g0 st \<longleftrightarrow>
     Good (tt_graph st) \<and> extends g0 (tt_graph st)
     \<and> tt_u st < numVertices (tt_graph st)
     \<and> (tt_u st = exitVertex g0 \<longrightarrow> tt_v st = None \<and> tt_fork st = None)
     \<and> (tt_u st \<noteq> exitVertex g0 \<longrightarrow>
           tt_v st \<noteq> None
           \<and> (\<exists>w. (case tt_fork st of Some f \<Rightarrow> f = w | None \<Rightarrow> tt_v st = Some w)
                  \<and> fork_ok (tt_graph st) w (tt_u st)))"

section \<open>Properties of the aligned-pair constructor\<close>

text \<open>The constructor's loop, in closed form: it throws at the first column of two gaps.\<close>

lemma ctor_loop_eq:
  "length target = length query \<Longrightarrow> length tr = length target \<Longrightarrow> i \<le> length target \<Longrightarrow>
   ctor_loop target query i tr =
     (if \<exists>k\<ge>i. gapColumn target query k
      then Inl InvalidInputError
      else Inr (take i tr @ map (\<lambda>(t, q). transcriptChar t q) (zip (drop i target) (drop i query))))"
proof (induction target query i tr rule: ctor_loop.induct)
  case (1 target query i transcript)
  show ?case
  proof (cases "i < length target")
    case False
    with 1 show ?thesis by (simp add: ctor_loop.simps gapColumn_def)
  next
    case True
    note lt = True
    show ?thesis
    proof (cases "gapColumn target query i")
      case True
      then have "\<exists>k\<ge>i. gapColumn target query k" by blast
      with lt True show ?thesis by (subst ctor_loop.simps) (simp add: Let_def gapColumn_def)
    next
      case False
      let ?tr' = "transcript[i := transcriptChar (target ! i) (query ! i)]"
      have ng: "\<not> (target ! i = CHR ''-'' \<and> query ! i = CHR ''-'')"
        using False lt by (simp add: gapColumn_def)
      have IH: "ctor_loop target query (Suc i) ?tr' =
        (if \<exists>k\<ge>Suc i. gapColumn target query k
         then Inl InvalidInputError
         else Inr (take (Suc i) ?tr' @ map (\<lambda>(t, q). transcriptChar t q) (zip (drop (Suc i) target) (drop (Suc i) query))))"
        using 1 lt ng by simp
      have ex: "(\<exists>k\<ge>i. gapColumn target query k) = (\<exists>k\<ge>Suc i. gapColumn target query k)"
        using False by (metis Suc_leI le_neq_implies_less Suc_leD)
      have tk: "take (Suc i) ?tr' = take i transcript @ [transcriptChar (target ! i) (query ! i)]"
        using 1(3) lt by (simp add: take_Suc_conv_app_nth)
      have dr: "drop i target = target ! i # drop (Suc i) target" "drop i query = query ! i # drop (Suc i) query"
        using lt 1(2) by (simp_all add: Cons_nth_drop_Suc)
      have step: "ctor_loop target query i transcript = ctor_loop target query (Suc i) ?tr'"
        using lt ng by (subst ctor_loop.simps) (auto simp add: Let_def)
      show ?thesis
        unfolding step IH ex tk dr by simp
    qed
  qed
qed

lemma newPairwiseAlignment_eq:
  "newPairwiseAlignment target query =
     (if length target \<noteq> length query \<or> (\<exists>k. gapColumn target query k) then Inl InvalidInputError
      else Inr \<lparr>Target = target, Query = query,
                Transcript = map (\<lambda>(t, q). transcriptChar t q) (zip target query)\<rparr>)"
  by (simp add: newPairwiseAlignment_def ctor_loop_eq)

text \<open>
  Claim C9, as written: the constructor signals \<open>InvalidInputError\<close> for every input with
  a character outside \<open>{A,C,G,T,-}\<close>.  The constructor never inspects the alphabet: the
  aligned pair \<open>("N", "N")\<close> is accepted, with transcript \<open>"M"\<close>.
\<close>

theorem ctor_accepts_other_characters:
  "CHR ''N'' \<notin> {CHR ''A'', CHR ''C'', CHR ''G'', CHR ''T'', CHR ''-''} \<and>
   newPairwiseAlignment ''N'' ''N'' = Inr \<lparr>Target = ''N'', Query = ''N'', Transcript = ''M''\<rparr>"
  by (simp add: newPairwiseAlignment_def ctor_loop.simps transcriptChar_def)

text \<open>
  Claim C9, amended: the constructor signals \<open>InvalidInputError\<close> exactly when the two
  aligned strings differ in length or some column holds \<open>'-'\<close> in both; for every other
  input, whatever its characters, it succeeds and keeps the two strings, with the
  transcript derived column by column.
\<close>

theorem ctor_invalid_input_iff:
  "newPairwiseAlignment target query =
     (if length target \<noteq> length query
         \<or> (\<exists>k<length target. target ! k = CHR ''-'' \<and> query ! k = CHR ''-'')
      then Inl InvalidInputError
      else Inr \<lparr>Target = target, Query = query,
                Transcript = map (\<lambda>(t, q). transcriptChar t q) (zip target query)\<rparr>)"
  by (simp add: newPairwiseAlignment_eq gapColumn_def)

theorem ctor_invalid_input_iff_witness:
  "newPairwiseAlignment ''GATC'' ''GA-C''
     = Inr \<lparr>Target = ''GATC'', Query = ''GA-C'', Transcript = ''MMDM''\<rparr>
   \<and> newPairwiseAlignment ''G-'' ''A-'' = Inl InvalidInputError
   \<and> newPairwiseAlignment ''GA'' ''G'' = Inl InvalidInputError"
proof -
  have "\<exists>k<length ''G-''. ''G-'' ! k = CHR ''-'' \<and> ''A-'' ! k = CHR ''-''"
    by (rule exI [of _ 1]) simp
  then have "newPairwiseAlignment ''G-'' ''A-'' = Inl InvalidInputError"
    using ctor_invalid_input_iff [of "''G-''" "''A-''"] by simp
  moreover have "\<not> (\<exists>k<length ''GATC''. ''GATC'' ! k = CHR ''-'' \<and> ''GA-C'' ! k = CHR ''-'')"
    by (simp add: nth_Cons' less_Suc_eq)
  then have "newPairwiseAlignment ''GATC'' ''GA-C''
     = Inr \<lparr>Target = ''GATC'', Query = ''GA-C'', Transcript = ''MMDM''\<rparr>"
    using ctor_invalid_input_iff [of "''GATC''" "''GA-C''"]
    by (simp add: transcriptChar_def)
  moreover have "newPairwiseAlignment ''GA'' ''G'' = Inl InvalidInputError"
    using ctor_invalid_input_iff [of "''GA''" "''G''"] by simp
  ultimately show ?thesis by simp
qed

section \<open>Properties of \<open>FromTranscript\<close>\<close>

text \<open>One iteration of the loop, for each transcript symbol.\<close>

lemma ft_loop_M: "tPos < length uT \<Longrightarrow> qPos < length uQ \<Longrightarrow> uT ! tPos = uQ ! qPos \<Longrightarrow>
  ft_loop (CHR ''M'' # xs) uT uQ (aT, aQ, tPos, qPos) =
  ft_loop xs uT uQ (aT @ [uT ! tPos], aQ @ [uQ ! qPos], Suc tPos, Suc qPos)"
  by (simp add: Let_def)

lemma ft_loop_R: "tPos < length uT \<Longrightarrow> qPos < length uQ \<Longrightarrow> uT ! tPos \<noteq> uQ ! qPos \<Longrightarrow>
  ft_loop (CHR ''R'' # xs) uT uQ (aT, aQ, tPos, qPos) =
  ft_loop xs uT uQ (aT @ [uT ! tPos], aQ @ [uQ ! qPos], Suc tPos, Suc qPos)"
  by (simp add: Let_def)

lemma ft_loop_I: "tPos \<le> length uT \<Longrightarrow> qPos < length uQ \<Longrightarrow>
  ft_loop (CHR ''I'' # xs) uT uQ (aT, aQ, tPos, qPos) =
  ft_loop xs uT uQ (aT @ [CHR ''-''], aQ @ [uQ ! qPos], tPos, Suc qPos)"
  by (simp add: Let_def)

lemma ft_loop_D: "tPos < length uT \<Longrightarrow> qPos \<le> length uQ \<Longrightarrow>
  ft_loop (CHR ''D'' # xs) uT uQ (aT, aQ, tPos, qPos) =
  ft_loop xs uT uQ (aT @ [uT ! tPos], aQ @ [CHR ''-''], Suc tPos, qPos)"
  by (simp add: Let_def)

declare ft_loop.simps(2) [simp del]

lemma strip_gaps_Cons: "strip_gaps (a # A) = (if a = CHR ''-'' then strip_gaps A else a # strip_gaps A)"
  by (simp add: strip_gaps_def)

lemma ft_loop_roundtrip:
  "length A = length Q \<Longrightarrow> \<forall>(a, q) \<in> set (zip A Q). \<not> (a = CHR ''-'' \<and> q = CHR ''-'') \<Longrightarrow>
   ft_loop (map (\<lambda>(t, q). transcriptChar t q) (zip A Q)) (pt @ strip_gaps A) (pq @ strip_gaps Q)
       (aT, aQ, length pt, length pq)
     = Some (aT @ A, aQ @ Q, length pt + length (strip_gaps A), length pq + length (strip_gaps Q))"
proof (induction A Q arbitrary: pt pq aT aQ rule: list_induct2)
  case Nil
  then show ?case by (simp add: strip_gaps_def)
next
  case (Cons a A q Q)
  have ng: "\<not> (a = CHR ''-'' \<and> q = CHR ''-'')" 
    and rest: "\<forall>(a, q) \<in> set (zip A Q). \<not> (a = CHR ''-'' \<and> q = CHR ''-'')"
    using Cons.prems by auto
  note IH = Cons.IH [OF rest]
  consider (M) "a = q" "a \<noteq> CHR ''-''" | (I) "a = CHR ''-''" "q \<noteq> CHR ''-''"
    | (D) "q = CHR ''-''" "a \<noteq> CHR ''-''" | (R) "a \<noteq> q" "a \<noteq> CHR ''-''" "q \<noteq> CHR ''-''"
    using ng by blast
  then show ?case
  proof cases
    case M
    then have tc: "transcriptChar a q = CHR ''M''"
      and sg: "strip_gaps (a # A) = a # strip_gaps A" "strip_gaps (q # Q) = q # strip_gaps Q"
      and eq: "(a = q) = True"
      by (simp_all add: transcriptChar_def strip_gaps_Cons)
    show ?thesis
      using IH [of "pt @ [a]" "pq @ [q]" "aT @ [a]" "aQ @ [q]"]
      by (simp add: tc sg ft_loop_M eq)
  next
    case I
    then have tc: "transcriptChar (CHR ''-'') q = CHR ''I''"
      and sg: "strip_gaps (CHR ''-'' # A) = strip_gaps A" "strip_gaps (q # Q) = q # strip_gaps Q"
      by (auto simp add: transcriptChar_def strip_gaps_Cons)
    show ?thesis
      using IH [of pt "pq @ [q]" "aT @ [a]" "aQ @ [q]"] I(1)
      by (simp add: tc sg ft_loop_I)
  next
    case D
    then have tc: "transcriptChar a (CHR ''-'') = CHR ''D''"
      and sg: "strip_gaps (a # A) = a # strip_gaps A" "strip_gaps (CHR ''-'' # Q) = strip_gaps Q"
      by (auto simp add: transcriptChar_def strip_gaps_Cons)
    show ?thesis
      using IH [of "pt @ [a]" pq "aT @ [a]" "aQ @ [q]"] D(1)
      by (simp add: tc sg ft_loop_D)
  next
    case R
    then have tc: "transcriptChar a q = CHR ''R''"
      and sg: "strip_gaps (a # A) = a # strip_gaps A" "strip_gaps (q # Q) = q # strip_gaps Q"
      by (simp_all add: transcriptChar_def strip_gaps_Cons)
    show ?thesis
      using IH [of "pt @ [a]" "pq @ [q]" "aT @ [a]" "aQ @ [q]"] R(1)
      by (simp add: tc sg ft_loop_R)
  qed
qed

lemma gapColumn_zip:
  assumes len: "length A = length Q"
  shows "(\<exists>k. gapColumn A Q k) \<longleftrightarrow> (\<exists>(a, q) \<in> set (zip A Q). a = CHR ''-'' \<and> q = CHR ''-'')"
proof
  assume "\<exists>k. gapColumn A Q k"
  then obtain k where k: "k < length A" "A ! k = CHR ''-''" "Q ! k = CHR ''-''"
    by (auto simp: gapColumn_def)
  then have "(A ! k, Q ! k) \<in> set (zip A Q)"
    using len by (auto simp: set_zip intro!: exI [of _ k])
  with k show "\<exists>(a, q) \<in> set (zip A Q). a = CHR ''-'' \<and> q = CHR ''-''"
    by force
next
  assume "\<exists>(a, q) \<in> set (zip A Q). a = CHR ''-'' \<and> q = CHR ''-''"
  then have "(CHR ''-'', CHR ''-'') \<in> set (zip A Q)" by auto
  then obtain k where "k < length A" "A ! k = CHR ''-''" "Q ! k = CHR ''-''"
    using len by (auto simp: set_zip)
  then show "\<exists>k. gapColumn A Q k"
    by (auto simp: gapColumn_def)
qed

text \<open>
  Claim C3: for every aligned pair \<open>(A, Q)\<close> of equal length with no column of two gaps,
  the constructor succeeds, and \<open>FromTranscript\<close> applied to the transcript it derived
  and to the two gap-stripped strings succeeds and returns the same alignment: target
  \<open>A\<close>, query \<open>Q\<close> and the same transcript.
\<close>

theorem transcript_roundtrip:
  assumes "length A = length Q"
    and "\<forall>k<length A. \<not> (A ! k = CHR ''-'' \<and> Q ! k = CHR ''-'')"
  shows "\<exists>aln. newPairwiseAlignment A Q = Inr aln \<and> Target aln = A \<and> Query aln = Q \<and>
           FromTranscript (Transcript aln) (strip_gaps A) (strip_gaps Q) = Inr (Some aln)"
proof -
  let ?tr = "map (\<lambda>(t, q). transcriptChar t q) (zip A Q)"
  let ?aln = "\<lparr>Target = A, Query = Q, Transcript = ?tr\<rparr>"
  have nogap: "\<not> (\<exists>k. gapColumn A Q k)"
    using assms(2) by (auto simp: gapColumn_def)
  have new: "newPairwiseAlignment A Q = Inr ?aln"
    using assms(1) nogap by (simp add: newPairwiseAlignment_eq)
  have zipfree: "\<forall>(a, q) \<in> set (zip A Q). \<not> (a = CHR ''-'' \<and> q = CHR ''-'')"
    using nogap gapColumn_zip [OF assms(1)] by blast
  have "ft_loop ?tr (strip_gaps A) (strip_gaps Q) ([], [], 0, 0)
          = Some (A, Q, length (strip_gaps A), length (strip_gaps Q))"
    using ft_loop_roundtrip [OF assms(1) zipfree, of "[]" "[]" "[]" "[]"] by simp
  then have "FromTranscript ?tr (strip_gaps A) (strip_gaps Q) = Inr (Some ?aln)"
    by (simp add: FromTranscript_def new)
  with new show ?thesis by simp
qed

theorem transcript_roundtrip_witness:
  "newPairwiseAlignment ''GA-TC'' ''GAC-C'' = Inr \<lparr>Target = ''GA-TC'', Query = ''GAC-C'', Transcript = ''MMIDM''\<rparr>
   \<and> FromTranscript ''MMIDM'' ''GATC'' ''GACC'' = Inr (Some \<lparr>Target = ''GA-TC'', Query = ''GAC-C'', Transcript = ''MMIDM''\<rparr>)"
proof -
  have h: "\<forall>k<length ''GA-TC''. \<not> (''GA-TC'' ! k = CHR ''-'' \<and> ''GAC-C'' ! k = CHR ''-'')"
    by (simp add: nth_Cons' less_Suc_eq)
  have s: "strip_gaps ''GA-TC'' = ''GATC''" "strip_gaps ''GAC-C'' = ''GACC''"
    by (simp_all add: strip_gaps_def)
  from transcript_roundtrip [of "''GA-TC''" "''GAC-C''", OF _ h] 
  obtain aln where a: "newPairwiseAlignment ''GA-TC'' ''GAC-C'' = Inr aln"
     "FromTranscript (Transcript aln) (strip_gaps ''GA-TC'') (strip_gaps ''GAC-C'') = Inr (Some aln)"
    by auto
  have n: "newPairwiseAlignment ''GA-TC'' ''GAC-C'' = Inr \<lparr>Target = ''GA-TC'', Query = ''GAC-C'', Transcript = ''MMIDM''\<rparr>"
    by code_simp
  from a(1) n have "aln = \<lparr>Target = ''GA-TC'', Query = ''GAC-C'', Transcript = ''MMIDM''\<rparr>"
    by simp
  with a(2) s n show ?thesis by simp
qed

subsection \<open>The failure indicator\<close>

text \<open>
  Once a position has run past the end of its string, the loop returns \<open>NULL\<close> at its next
  iteration, or the final test fails.
\<close>

lemma ft_ok_Nil: "ft_ok [] uT uQ (aT, aQ, tP, qP) \<longleftrightarrow> tP = length uT \<and> qP = length uQ"
  by (simp add: ft_ok_def)

lemma ft_loop_pos_mono:
  "ft_loop xs uT uQ (aT, aQ, tP, qP) = Some (aT', aQ', tP', qP') \<Longrightarrow> tP \<le> tP' \<and> qP \<le> qP'"
proof (induction xs arbitrary: aT aQ tP qP)
  case Nil
  then show ?case by simp
next
  case (Cons x xs)
  from Cons.prems show ?case
    by (auto simp: ft_loop.simps(2) Let_def split: if_splits dest!: Cons.IH)
qed

lemma ft_ok_overrun:
  "tP > length uT \<or> qP > length uQ \<Longrightarrow> ft_ok xs uT uQ (aT, aQ, tP, qP) = False"
  by (cases xs) (auto simp: ft_ok_def ft_loop.simps(2))

lemma ft_ok_step:
  "ft_ok (x # xs) uT uQ (aT, aQ, tP, qP) =
     (if tP > length uT \<or> qP > length uQ then False
      else
        let t = (if tP < length uT then uT ! tP else NUL);
            q = (if qP < length uQ then uQ ! qP else NUL)
        in
          if x = CHR ''M'' then t = q \<and> ft_ok xs uT uQ (aT @ [t], aQ @ [q], Suc tP, Suc qP)
          else if x = CHR ''R'' then t \<noteq> q \<and> ft_ok xs uT uQ (aT @ [t], aQ @ [q], Suc tP, Suc qP)
          else if x = CHR ''I'' then ft_ok xs uT uQ (aT @ [CHR ''-''], aQ @ [q], tP, Suc qP)
          else if x = CHR ''D'' then ft_ok xs uT uQ (aT @ [t], aQ @ [CHR ''-''], Suc tP, qP)
          else False)"
  by (simp add: ft_ok_def ft_loop.simps(2) Let_def)

lemma ft_ok_Cons:
  "ft_ok (x # xs) (pt @ ts) (pq @ qs) (aT, aQ, length pt, length pq) \<longleftrightarrow>
     (if x = CHR ''M'' then
        (case (ts, qs) of (t # ts', q # qs') \<Rightarrow> t = q \<and>
            ft_ok xs ((pt @ [t]) @ ts') ((pq @ [q]) @ qs') (aT @ [t], aQ @ [q], length (pt @ [t]), length (pq @ [q]))
         | _ \<Rightarrow> False)
      else if x = CHR ''R'' then
        (case (ts, qs) of (t # ts', q # qs') \<Rightarrow> t \<noteq> q \<and>
            ft_ok xs ((pt @ [t]) @ ts') ((pq @ [q]) @ qs') (aT @ [t], aQ @ [q], length (pt @ [t]), length (pq @ [q]))
         | _ \<Rightarrow> False)
      else if x = CHR ''I'' then
        (case qs of q # qs' \<Rightarrow>
            ft_ok xs (pt @ ts) ((pq @ [q]) @ qs') (aT @ [CHR ''-''], aQ @ [q], length pt, length (pq @ [q]))
         | [] \<Rightarrow> False)
      else if x = CHR ''D'' then
        (case ts of t # ts' \<Rightarrow>
            ft_ok xs ((pt @ [t]) @ ts') (pq @ qs) (aT @ [t], aQ @ [CHR ''-''], length (pt @ [t]), length pq)
         | [] \<Rightarrow> False)
      else False)"
  by (cases ts; cases qs) (simp_all add: ft_ok_step Let_def ft_ok_overrun)

lemma ft_ok_threads:
  "ft_ok xs (pt @ ts) (pq @ qs) (aT, aQ, length pt, length pq) \<longleftrightarrow> threads xs ts qs"
proof (induction xs arbitrary: pt ts pq qs aT aQ)
  case Nil
  then show ?case by (auto simp: ft_ok_Nil)
next
  case (Cons x xs)
  show ?case
    unfolding ft_ok_Cons threads.simps Cons.IH by simp
qed

lemma threads_result:
  "threads xs ts qs \<Longrightarrow> CHR ''-'' \<notin> set ts \<Longrightarrow> CHR ''-'' \<notin> set qs \<Longrightarrow>
   \<exists>bT bQ. ft_loop xs (pt @ ts) (pq @ qs) (aT, aQ, length pt, length pq)
              = Some (aT @ bT, aQ @ bQ, length pt + length ts, length pq + length qs)
     \<and> length bT = length bQ \<and> strip_gaps bT = ts \<and> strip_gaps bQ = qs
     \<and> (\<forall>k. \<not> gapColumn bT bQ k)"
proof (induction xs arbitrary: pt ts pq qs aT aQ)
  case Nil
  then show ?case by (simp add: strip_gaps_def gapColumn_def)
next
  case (Cons x xs)
  have nogap_Cons: "(\<forall>k. \<not> gapColumn (a # bT) (b # bQ) k)"
    if "\<forall>k. \<not> gapColumn bT bQ k" "\<not> (a = CHR ''-'' \<and> b = CHR ''-'')" for a b bT bQ
  proof
    fix k show "\<not> gapColumn (a # bT) (b # bQ) k"
      using that(1) [rule_format, of "k - 1"] that(2) by (cases k) (auto simp: gapColumn_def)
  qed
  consider (M) "x = CHR ''M''" | (R) "x = CHR ''R''" | (I) "x = CHR ''I''" | (D) "x = CHR ''D''"
    using Cons.prems(1) by (auto split: if_splits)
  then show ?case
  proof cases
    case M
    with Cons.prems obtain t ts' q qs' where eq: "ts = t # ts'" "qs = q # qs'" "t = q"
      and th: "threads xs ts' qs'" and ng: "t \<noteq> CHR ''-''" "q \<noteq> CHR ''-''"
      and ngs: "CHR ''-'' \<notin> set ts'" "CHR ''-'' \<notin> set qs'"
      by (auto split: list.splits)
    from Cons.IH [OF th ngs, of "pt @ [t]" "pq @ [q]" "aT @ [t]" "aQ @ [q]"]
    obtain bT bQ where b: "ft_loop xs (pt @ t # ts') (pq @ q # qs') (aT @ [t], aQ @ [q], Suc (length pt), Suc (length pq))
         = Some (aT @ t # bT, aQ @ q # bQ, Suc (length pt + length ts'), Suc (length pq + length qs'))"
      "length bT = length bQ" "strip_gaps bT = ts'" "strip_gaps bQ = qs'" "\<forall>k. \<not> gapColumn bT bQ k"
      by auto
    have "ft_loop (x # xs) (pt @ ts) (pq @ qs) (aT, aQ, length pt, length pq)
        = Some (aT @ (t # bT), aQ @ (q # bQ), length pt + length ts, length pq + length qs)"
      using b(1) eq(3) unfolding M eq(1,2) by (subst ft_loop_M) simp_all
    moreover have "\<forall>k. \<not> gapColumn (t # bT) (q # bQ) k"
      using nogap_Cons [OF b(5)] ng by blast
    ultimately show ?thesis
      using b(2-4) ng eq(1,2) by (intro exI [of _ "t # bT"] exI [of _ "q # bQ"]) (simp add: strip_gaps_Cons)
  next
    case R
    with Cons.prems obtain t ts' q qs' where eq: "ts = t # ts'" "qs = q # qs'" "t \<noteq> q"
      and th: "threads xs ts' qs'" and ng: "t \<noteq> CHR ''-''" "q \<noteq> CHR ''-''"
      and ngs: "CHR ''-'' \<notin> set ts'" "CHR ''-'' \<notin> set qs'"
      by (auto split: list.splits)
    from Cons.IH [OF th ngs, of "pt @ [t]" "pq @ [q]" "aT @ [t]" "aQ @ [q]"]
    obtain bT bQ where b: "ft_loop xs (pt @ t # ts') (pq @ q # qs') (aT @ [t], aQ @ [q], Suc (length pt), Suc (length pq))
         = Some (aT @ t # bT, aQ @ q # bQ, Suc (length pt + length ts'), Suc (length pq + length qs'))"
      "length bT = length bQ" "strip_gaps bT = ts'" "strip_gaps bQ = qs'" "\<forall>k. \<not> gapColumn bT bQ k"
      by auto
    have "ft_loop (x # xs) (pt @ ts) (pq @ qs) (aT, aQ, length pt, length pq)
        = Some (aT @ (t # bT), aQ @ (q # bQ), length pt + length ts, length pq + length qs)"
      using b(1) eq(3) unfolding R eq(1,2) by (subst ft_loop_R) simp_all
    moreover have "\<forall>k. \<not> gapColumn (t # bT) (q # bQ) k"
      using nogap_Cons [OF b(5)] ng by blast
    ultimately show ?thesis
      using b(2-4) ng eq(1,2) by (intro exI [of _ "t # bT"] exI [of _ "q # bQ"]) (simp add: strip_gaps_Cons)
  next
    case I
    with Cons.prems obtain q qs' where eq: "qs = q # qs'"
      and th: "threads xs ts qs'" and ng: "q \<noteq> CHR ''-''"
      and ngs: "CHR ''-'' \<notin> set ts" "CHR ''-'' \<notin> set qs'"
      by (auto split: list.splits)
    from Cons.IH [OF th ngs, of pt "pq @ [q]" "aT @ [CHR ''-'']" "aQ @ [q]"]
    obtain bT bQ where b: "ft_loop xs (pt @ ts) (pq @ q # qs') (aT @ [CHR ''-''], aQ @ [q], length pt, Suc (length pq))
         = Some (aT @ CHR ''-'' # bT, aQ @ q # bQ, length pt + length ts, Suc (length pq + length qs'))"
      "length bT = length bQ" "strip_gaps bT = ts" "strip_gaps bQ = qs'" "\<forall>k. \<not> gapColumn bT bQ k"
      by auto
    have "ft_loop (x # xs) (pt @ ts) (pq @ qs) (aT, aQ, length pt, length pq)
        = Some (aT @ (CHR ''-'' # bT), aQ @ (q # bQ), length pt + length ts, length pq + length qs)"
      using b(1) unfolding I eq by (subst ft_loop_I) simp_all
    moreover have "\<forall>k. \<not> gapColumn (CHR ''-'' # bT) (q # bQ) k"
      using nogap_Cons [OF b(5)] ng by blast
    ultimately show ?thesis
      using b(2-4) ng eq by (intro exI [of _ "CHR ''-'' # bT"] exI [of _ "q # bQ"]) (simp add: strip_gaps_Cons)
  next
    case D
    with Cons.prems obtain t ts' where eq: "ts = t # ts'"
      and th: "threads xs ts' qs" and ng: "t \<noteq> CHR ''-''"
      and ngs: "CHR ''-'' \<notin> set ts'" "CHR ''-'' \<notin> set qs"
      by (auto split: list.splits)
    from Cons.IH [OF th ngs, of "pt @ [t]" pq "aT @ [t]" "aQ @ [CHR ''-'']"]
    obtain bT bQ where b: "ft_loop xs (pt @ t # ts') (pq @ qs) (aT @ [t], aQ @ [CHR ''-''], Suc (length pt), length pq)
         = Some (aT @ t # bT, aQ @ CHR ''-'' # bQ, Suc (length pt + length ts'), length pq + length qs)"
      "length bT = length bQ" "strip_gaps bT = ts'" "strip_gaps bQ = qs" "\<forall>k. \<not> gapColumn bT bQ k"
      by auto
    have "ft_loop (x # xs) (pt @ ts) (pq @ qs) (aT, aQ, length pt, length pq)
        = Some (aT @ (t # bT), aQ @ (CHR ''-'' # bQ), length pt + length ts, length pq + length qs)"
      using b(1) unfolding D eq by (subst ft_loop_D) simp_all
    moreover have "\<forall>k. \<not> gapColumn (t # bT) (CHR ''-'' # bQ) k"
      using nogap_Cons [OF b(5)] ng by blast
    ultimately show ?thesis
      using b(2-4) ng eq by (intro exI [of _ "t # bT"] exI [of _ "CHR ''-'' # bQ"]) (simp add: strip_gaps_Cons)
  qed
qed

lemma FromTranscript_null_iff:
  "FromTranscript tr uT uQ = Inr None \<longleftrightarrow> \<not> ft_ok tr uT uQ ([], [], 0, 0)"
  by (auto simp: FromTranscript_def ft_ok_def split: option.splits sum.splits)

text \<open>
  An unaligned string holds no gap character.  For a string that does, no alignment has
  it as its gap-stripped form: the transcript \<open>"R"\<close> threads through \<open>"-"\<close> and
  \<open>"A"\<close>, and the alignment that is returned has the target \<open>"-"\<close>, whose
  gap-stripped form is empty.
\<close>

lemma FromTranscript_gap_in_unaligned:
  "threads ''R'' ''-'' ''A''
   \<and> FromTranscript ''R'' ''-'' ''A'' = Inr (Some \<lparr>Target = ''-'', Query = ''A'', Transcript = ''I''\<rparr>)
   \<and> strip_gaps ''-'' \<noteq> ''-''"
  by (simp add: FromTranscript_def ft_loop.simps(2) newPairwiseAlignment_def ctor_loop.simps
      transcriptChar_def strip_gaps_def Let_def)

text \<open>
  With a gap character in such a string the constructor called on the last line can also
  throw: the result is then neither \<open>NULL\<close> nor an alignment.
\<close>

lemma FromTranscript_throws:
  "threads ''D'' ''-'' [] \<and> FromTranscript ''D'' ''-'' [] = Inl InvalidInputError"
  by (simp add: FromTranscript_def ft_loop.simps(2) newPairwiseAlignment_def ctor_loop.simps
      transcriptChar_def strip_gaps_def Let_def)

lemma FromTranscript_some:
  assumes "threads transcript unalnTarget unalnQuery
        \<and> CHR ''-'' \<notin> set unalnTarget \<and> CHR ''-'' \<notin> set unalnQuery"
  shows "\<exists>aln. FromTranscript transcript unalnTarget unalnQuery = Inr (Some aln)
         \<and> strip_gaps (Target aln) = unalnTarget \<and> strip_gaps (Query aln) = unalnQuery"
proof -
  from assms have th: "threads transcript unalnTarget unalnQuery"
    and ng: "CHR ''-'' \<notin> set unalnTarget" "CHR ''-'' \<notin> set unalnQuery"
    by simp_all
  from threads_result [OF th ng, of "[]" "[]" "[]" "[]"]
  obtain bT bQ where b: "ft_loop transcript unalnTarget unalnQuery ([], [], 0, 0)
              = Some (bT, bQ, length unalnTarget, length unalnQuery)"
    "length bT = length bQ" "strip_gaps bT = unalnTarget" "strip_gaps bQ = unalnQuery"
    "\<forall>k. \<not> gapColumn bT bQ k"
    by auto
  have "newPairwiseAlignment bT bQ = Inr \<lparr>Target = bT, Query = bQ,
                Transcript = map (\<lambda>(t, q). transcriptChar t q) (zip bT bQ)\<rparr>"
    using b(2,5) by (simp add: newPairwiseAlignment_eq)
  then show "\<exists>aln. FromTranscript transcript unalnTarget unalnQuery = Inr (Some aln)
         \<and> strip_gaps (Target aln) = unalnTarget \<and> strip_gaps (Query aln) = unalnQuery"
    using b by (simp add: FromTranscript_def)
qed

text \<open>
  Claim C8: for every transcript and every pair of unaligned strings, \<open>FromTranscript\<close>
  returns \<open>NULL\<close> if and only if the transcript does not thread through the two
  strings; when it threads, it returns an alignment whose gap-stripped target and query
  equal the inputs; and it never throws.  The unaligned strings are strings without the
  gap character \<open>'-'\<close>; the first part holds for all strings.
\<close>

theorem FromTranscript_threads:
  "(FromTranscript transcript unalnTarget unalnQuery = Inr None
      \<longleftrightarrow> \<not> threads transcript unalnTarget unalnQuery)
   \<and> (threads transcript unalnTarget unalnQuery
        \<and> CHR ''-'' \<notin> set unalnTarget \<and> CHR ''-'' \<notin> set unalnQuery \<longrightarrow>
      (\<exists>aln. FromTranscript transcript unalnTarget unalnQuery = Inr (Some aln)
         \<and> strip_gaps (Target aln) = unalnTarget \<and> strip_gaps (Query aln) = unalnQuery))
   \<and> (CHR ''-'' \<notin> set unalnTarget \<and> CHR ''-'' \<notin> set unalnQuery \<longrightarrow>
      (\<forall>e. FromTranscript transcript unalnTarget unalnQuery \<noteq> Inl e))"
proof -
  have null: "FromTranscript transcript unalnTarget unalnQuery = Inr None
      \<longleftrightarrow> \<not> threads transcript unalnTarget unalnQuery"
    using ft_ok_threads [of transcript "[]" unalnTarget "[]" unalnQuery "[]" "[]"]
    by (simp add: FromTranscript_null_iff)
  have some: "\<exists>aln. FromTranscript transcript unalnTarget unalnQuery = Inr (Some aln)
         \<and> strip_gaps (Target aln) = unalnTarget \<and> strip_gaps (Query aln) = unalnQuery"
    if "threads transcript unalnTarget unalnQuery
        \<and> CHR ''-'' \<notin> set unalnTarget \<and> CHR ''-'' \<notin> set unalnQuery"
    using that by (rule FromTranscript_some)
  have "FromTranscript transcript unalnTarget unalnQuery \<noteq> Inl e"
    if ng: "CHR ''-'' \<notin> set unalnTarget \<and> CHR ''-'' \<notin> set unalnQuery" for e
  proof (cases "threads transcript unalnTarget unalnQuery")
    case True
    with ng some show ?thesis by auto
  next
    case False
    with null show ?thesis by simp
  qed
  with null some show ?thesis by blast
qed

theorem FromTranscript_threads_witness:
  "FromTranscript ''MMDM'' ''GATC'' ''GAC''
     = Inr (Some \<lparr>Target = ''GATC'', Query = ''GA-C'', Transcript = ''MMDM''\<rparr>)
   \<and> threads ''MMDM'' ''GATC'' ''GAC''
   \<and> FromTranscript ''MMM'' ''GATC'' ''GAC'' = Inr None
   \<and> \<not> threads ''MMM'' ''GATC'' ''GAC''"
proof -
  have t: "threads ''MMDM'' ''GATC'' ''GAC''" "\<not> threads ''MMM'' ''GATC'' ''GAC''"
    by simp_all
  have "FromTranscript ''MMM'' ''GATC'' ''GAC'' = Inr None"
    using FromTranscript_threads [of "''MMM''" "''GATC''" "''GAC''"] t(2) by blast
  moreover have "\<exists>aln. FromTranscript ''MMDM'' ''GATC'' ''GAC'' = Inr (Some aln)"
    using FromTranscript_threads [of "''MMDM''" "''GATC''" "''GAC''"] t(1) by auto
  then have "FromTranscript ''MMDM'' ''GATC'' ''GAC''
     = Inr (Some \<lparr>Target = ''GATC'', Query = ''GA-C'', Transcript = ''MMDM''\<rparr>)"
    by (simp add: FromTranscript_def ft_loop.simps(2) newPairwiseAlignment_def ctor_loop.simps
      transcriptChar_def Let_def)
  ultimately show ?thesis using t by simp
qed

section \<open>Properties of the coordinate lifting\<close>

lemma length_lifted: "length (lifted_positions cs q) = targetLength cs + 1"
  by (induction cs arbitrary: q) (auto simp: targetLength_def addsToTarget_def)

lemma last_lifted:
  "set cs \<subseteq> {CHR ''M'', CHR ''R'', CHR ''I'', CHR ''D''} \<Longrightarrow>
   last (lifted_positions cs q) = q + int (queryLength cs)"
proof (induction cs arbitrary: q)
  case Nil
  then show ?case by (simp add: queryLength_def)
next
  case (Cons c cs)
  have ne: "lifted_positions cs q' \<noteq> []" for q'
    using length_lifted [of cs q'] by auto
  from Cons show ?case
    by (auto simp: queryLength_def addsToQuery_def ne)
qed

lemma lifted_lower: "x \<in> set (lifted_positions cs q) \<Longrightarrow> q \<le> x"
proof (induction cs arbitrary: q)
  case Nil
  then show ?case by simp
next
  case (Cons c cs)
  from Cons.prems show ?case
    by (auto split: if_splits dest: Cons.IH)
qed

lemma sorted_lifted: "sorted (lifted_positions cs q)"
proof (induction cs arbitrary: q)
  case Nil
  then show ?case by simp
next
  case (Cons c cs)
  have "q \<le> x" if "x \<in> set (lifted_positions cs (q + 1))" for x
    using lifted_lower [OF that] by simp
  then show ?case
    using Cons.IH by (auto dest: lifted_lower)
qed

lemma ttq_loop_eq:
  "set cs \<subseteq> {CHR ''M'', CHR ''R'', CHR ''I'', CHR ''D''} \<Longrightarrow>
   \<exists>ntp'. ttq_loop cs (ntp, tP, qP)
            = Inr (ntp', tP + int (targetLength cs), qP + int (queryLength cs))
      \<and> ntp' @ [qP + int (queryLength cs)] = ntp @ lifted_positions cs qP"
proof (induction cs arbitrary: ntp tP qP)
  case Nil
  then show ?case by (simp add: targetLength_def queryLength_def)
next
  case (Cons c cs)
  then have sub: "set cs \<subseteq> {CHR ''M'', CHR ''R'', CHR ''I'', CHR ''D''}"
    and c: "c = CHR ''M'' \<or> c = CHR ''R'' \<or> c = CHR ''I'' \<or> c = CHR ''D''"
    by auto
  note IH = Cons.IH [OF sub]
  from c show ?case
  proof (elim disjE)
    assume c: "c = CHR ''M''"
    from IH [of "ntp @ [qP]" "tP + 1" "qP + 1"] show ?thesis
      by (auto simp: c targetLength_def queryLength_def addsToTarget_def addsToQuery_def add.assoc)
  next
    assume c: "c = CHR ''R''"
    from IH [of "ntp @ [qP]" "tP + 1" "qP + 1"] show ?thesis
      by (auto simp: c targetLength_def queryLength_def addsToTarget_def addsToQuery_def add.assoc)
  next
    assume c: "c = CHR ''I''"
    from IH [of "ntp" "tP" "qP + 1"] show ?thesis
      by (auto simp: c targetLength_def queryLength_def addsToTarget_def addsToQuery_def add.assoc)
  next
    assume c: "c = CHR ''D''"
    from IH [of "ntp @ [qP]" "tP + 1" "qP"] show ?thesis
      by (auto simp: c targetLength_def queryLength_def addsToTarget_def addsToQuery_def add.assoc)
  qed
qed

text \<open>
  Claim C7: for every transcript over \<open>{M,R,I,D}\<close>, \<open>TargetToQueryPositions\<close> returns
  (no fatal error, no failed assertion) the vector \<open>p\<close> that the per-symbol rules
  produce; \<open>p\<close> has length \<open>target_length + 1\<close>, its final entry \<open>p[target_length]\<close> is
  the query length, and its entries are monotone non-decreasing.
\<close>

theorem TargetToQueryPositions_lifting:
  assumes "set transcript \<subseteq> {CHR ''M'', CHR ''R'', CHR ''I'', CHR ''D''}"
  shows "\<exists>p. TargetToQueryPositions transcript = Inr p
           \<and> p = lifted_positions transcript 0
           \<and> length p = targetLength transcript + 1
           \<and> p ! targetLength transcript = int (queryLength transcript)
           \<and> sorted p"
proof -
  from ttq_loop_eq [OF assms, of "[]" 0 0] obtain ntp where
    l: "ttq_loop transcript ([], 0, 0)
          = Inr (ntp, int (targetLength transcript), int (queryLength transcript))"
    and e: "ntp @ [int (queryLength transcript)] = lifted_positions transcript 0"
    by auto
  let ?p = "lifted_positions transcript 0"
  have len: "length ?p = targetLength transcript + 1"
    by (rule length_lifted)
  have "?p ! targetLength transcript = last ?p"
    using len by (metis add_diff_cancel_right' last_conv_nth length_0_conv add_is_0 zero_neq_one)
  then have lst: "?p ! targetLength transcript = int (queryLength transcript)"
    using last_lifted [OF assms, of 0] by simp
  have "length (ntp @ [int (queryLength transcript)]) = targetLength transcript + 1"
    using e len by simp
  then have lntp: "length ntp = targetLength transcript"
    by simp
  have "TargetToQueryPositions transcript = Inr (ntp @ [int (queryLength transcript)])"
    using l lntp nth_append_length [of ntp "int (queryLength transcript)" "[]"]
    by (simp add: TargetToQueryPositions_def Let_def)
  then have "TargetToQueryPositions transcript = Inr ?p"
    using e by simp
  then show ?thesis
    using len lst sorted_lifted by simp
qed

theorem TargetToQueryPositions_lifting_witness:
  "TargetToQueryPositions ''MIDM'' = Inr [0, 2, 2, 3]
   \<and> targetLength ''MIDM'' = 3 \<and> queryLength ''MIDM'' = 3"
proof -
  have "set ''MIDM'' \<subseteq> {CHR ''M'', CHR ''R'', CHR ''I'', CHR ''D''}"
    by simp
  from TargetToQueryPositions_lifting [OF this]
  have "TargetToQueryPositions ''MIDM'' = Inr (lifted_positions ''MIDM'' 0)"
    by blast
  then show ?thesis
    by (simp add: targetLength_def queryLength_def addsToTarget_def addsToQuery_def)
qed

section \<open>Properties of the global aligner\<close>

subsection \<open>The score matrix\<close>

lemma assign_apply: "assign S i j v a b = (if a = i \<and> b = j then v else S a b)"
  by (simp add: assign_def)

lemma upt_1_Suc_Suc: "[1..<Suc (Suc n)] = [1..<Suc n] @ [Suc n]"
  by simp

lemma fillColumn0_apply:
  "fillColumn0 params I S a b =
     (if b = 0 \<and> 1 \<le> a \<and> a \<le> I then of_nat a * Insert params else S a b)"
proof (induction I)
  case 0
  then show ?case by (auto simp: fillColumn0_def)
next
  case (Suc I)
  have "fillColumn0 params (Suc I) S
          = assign (fillColumn0 params I S) (Suc I) 0 (of_nat (Suc I) * Insert params)"
    unfolding fillColumn0_def upt_1_Suc_Suc fold_append by simp
  then show ?case
    using Suc by (auto simp: assign_apply)
qed

lemma fillRow0_apply:
  "fillRow0 params J S a b =
     (if a = 0 \<and> 1 \<le> b \<and> b \<le> J then of_nat b * Delete params else S a b)"
proof (induction J)
  case 0
  then show ?case by (auto simp: fillRow0_def)
next
  case (Suc J)
  have "fillRow0 params (Suc J) S
          = assign (fillRow0 params J S) 0 (Suc J) (of_nat (Suc J) * Delete params)"
    unfolding fillRow0_def upt_1_Suc_Suc fold_append by simp
  then show ?case
    using Suc by (auto simp: assign_apply)
qed

lemma nw_0_col: "nw params target query i 0 = of_nat i * Insert params"
  by (cases i) simp_all

lemma boundary_nw:
  defines "B params target query Score0 \<equiv>
     fillRow0 params (length target) (fillColumn0 params (length query) (assign Score0 0 0 0))"
  shows "j \<le> length target \<Longrightarrow> B params target query Score0 0 j = nw params target query 0 j"
    and "i \<le> length query \<Longrightarrow> B params target query Score0 i 0 = nw params target query i 0"
  by (auto simp: B_def fillRow0_apply fillColumn0_apply assign_apply nw_0_col not_less_eq_eq)

text \<open>One row of the interior, filled up to column \<open>n\<close>.\<close>

lemma fillRow_prefix:
  assumes above: "\<And>j. j \<le> n \<Longrightarrow> S i j = nw params target query i j"
    and left: "S (Suc i) 0 = nw params target query (Suc i) 0"
  shows "(\<forall>j\<le>n. fold (fillCell params target query (Suc i)) [1..<Suc n] S (Suc i) j
                    = nw params target query (Suc i) j)
       \<and> (\<forall>a b. a \<noteq> Suc i \<longrightarrow> fold (fillCell params target query (Suc i)) [1..<Suc n] S a b = S a b)"
  using above
proof (induction n)
  case 0
  then show ?case using left by simp
next
  case (Suc n)
  let ?S' = "fold (fillCell params target query (Suc i)) [1..<Suc n] S"
  have IH: "\<forall>j\<le>n. ?S' (Suc i) j = nw params target query (Suc i) j"
    "\<forall>a b. a \<noteq> Suc i \<longrightarrow> ?S' a b = S a b"
    using Suc.IH Suc.prems by simp_all
  have step: "fold (fillCell params target query (Suc i)) [1..<Suc (Suc n)] S
                = fillCell params target query (Suc i) (Suc n) ?S'"
    unfolding upt_1_Suc_Suc fold_append by simp
  have cell: "fillCell params target query (Suc i) (Suc n) ?S' (Suc i) (Suc n)
                = nw params target query (Suc i) (Suc n)"
    using IH Suc.prems
    by (simp add: fillCell_def assign_apply Max3_def diagScore_def insScore_def delScore_def)
  show ?case
    unfolding step using IH cell
    by (auto simp: fillCell_def assign_apply le_Suc_eq)
qed

lemma fillRow_nw:
  assumes "\<And>j. j \<le> length target \<Longrightarrow> S i j = nw params target query i j"
    and "S (Suc i) 0 = nw params target query (Suc i) 0"
  shows "\<forall>j\<le>length target. fillRow params target query (Suc i) S (Suc i) j
                    = nw params target query (Suc i) j"
    and "\<forall>a b. a \<noteq> Suc i \<longrightarrow> fillRow params target query (Suc i) S a b = S a b"
  using fillRow_prefix [of "length target" S i params target query, OF assms]
  unfolding fillRow_def by blast+

lemma fold_fillCell_frame:
  "a \<noteq> i \<Longrightarrow> fold (fillCell params target query i) js S a b = S a b"
  by (induction js arbitrary: S) (simp_all add: fillCell_def assign_apply)

lemma fold_fillRow_frame:
  "a \<notin> set rows \<Longrightarrow> fold (fillRow params target query) rows S a b = S a b"
  by (induction rows arbitrary: S) (simp_all add: fillRow_def fold_fillCell_frame)

lemma fillInterior_prefix:
  assumes row0: "\<And>j. j \<le> length target \<Longrightarrow> S 0 j = nw params target query 0 j"
    and col0: "\<And>i. i \<le> m \<Longrightarrow> S i 0 = nw params target query i 0"
  shows "\<forall>i\<le>m. \<forall>j\<le>length target.
           fold (fillRow params target query) [1..<Suc m] S i j = nw params target query i j"
  using col0
proof (induction m)
  case 0
  then show ?case using row0 by simp
next
  case (Suc m)
  let ?S' = "fold (fillRow params target query) [1..<Suc m] S"
  have IH: "\<forall>i\<le>m. \<forall>j\<le>length target. ?S' i j = nw params target query i j"
    using Suc by simp
  have step: "fold (fillRow params target query) [1..<Suc (Suc m)] S
                = fillRow params target query (Suc m) ?S'"
    unfolding upt_1_Suc_Suc fold_append by simp
  have "?S' (Suc m) 0 = S (Suc m) 0"
    by (rule fold_fillRow_frame) simp
  then have left: "?S' (Suc m) 0 = nw params target query (Suc m) 0"
    using Suc.prems by simp
  have above: "\<And>j. j \<le> length target \<Longrightarrow> ?S' m j = nw params target query m j"
    using IH by simp
  note row = fillRow_nw [of target ?S' m params query, OF above left]
  show ?case
  proof (intro allI impI)
    fix i j assume "i \<le> Suc m" "j \<le> length target"
    then show "fold (fillRow params target query) [1..<Suc (Suc m)] S i j
                 = nw params target query i j"
      unfolding step using row IH by (cases "i = Suc m") auto
  qed
qed

lemma scoreMatrix_nw:
  assumes "i \<le> length query" "j \<le> length target"
  shows "scoreMatrix params target query Score0 i j = nw params target query i j"
  using fillInterior_prefix [of target _ params query "length query",
          OF boundary_nw(1) boundary_nw(2)] assms
  unfolding scoreMatrix_def fillInterior_def by simp

subsection \<open>The recurrence over the integers\<close>

text \<open>
  \<open>Max3\<close> is the maximum of the signed values.  While no score leaves the range of
  \<open>int\<close>, the cells are the integer recurrence of the specification: with every
  parameter at most \<open>B\<close> in absolute value, the cell \<open>(i, j)\<close> is at most \<open>(i + j) \<cdot> B\<close>
  in absolute value.
\<close>

lemma sint_Max3: "sint (Max3 a b c) = max (sint a) (max (sint b) (sint c))"
  by (simp add: Max3_def max_def)

lemma sint_of_int_range:
  "- (2 ^ 31) \<le> z \<Longrightarrow> z < 2 ^ 31 \<Longrightarrow> sint (word_of_int z :: cint) = z"
  by (simp add: sint_sbintrunc' signed_take_bit_int_eq_self)

lemma Max3_of_int:
  assumes "- (2 ^ 31) \<le> a" "a < 2 ^ 31" "- (2 ^ 31) \<le> b" "b < 2 ^ 31"
    "- (2 ^ 31) \<le> c" "c < 2 ^ 31"
  shows "Max3 (word_of_int a) (word_of_int b) (word_of_int c) = word_of_int (max a (max b c))"
  using assms by (simp add: Max3_def sint_of_int_range max_def)

lemma nw_int_bound:
  "\<bar>m\<bar> \<le> B \<Longrightarrow> \<bar>r\<bar> \<le> B \<Longrightarrow> \<bar>ins\<bar> \<le> B \<Longrightarrow> \<bar>del\<bar> \<le> B \<Longrightarrow>
   \<bar>nw_int m r ins del target query i j\<bar> \<le> int (i + j) * B"
proof (induction m r ins del target query i j rule: nw_int.induct)
  case (1 m r ins del target query j)
  have "\<bar>int j * del\<bar> = int j * \<bar>del\<bar>" by (simp add: abs_mult)
  also have "\<dots> \<le> int j * B" using 1(4) by (intro mult_left_mono) simp_all
  finally show ?case by simp
next
  case (2 m r ins del target query i)
  have "\<bar>int (Suc i) * ins\<bar> = int (Suc i) * \<bar>ins\<bar>" by (simp add: abs_mult)
  also have "\<dots> \<le> int (Suc i) * B" using 2(3) by (intro mult_left_mono) simp_all
  finally show ?case by simp
next
  case (3 m r ins del target query i j)
  let ?f = "nw_int m r ins del target query"
  have B0: "0 \<le> B" using 3(4) by simp
  have a: "\<bar>?f i j\<bar> \<le> int (i + j) * B" and b: "\<bar>?f i (Suc j)\<bar> \<le> int (i + Suc j) * B"
    and c: "\<bar>?f (Suc i) j\<bar> \<le> int (Suc i + j) * B"
    using 3 by simp_all
  have e: "int (Suc i + Suc j) * B = int (i + j) * B + 2 * B"
    "int (i + Suc j) * B = int (i + j) * B + B" "int (Suc i + j) * B = int (i + j) * B + B"
    by (simp_all add: algebra_simps)
  have "\<bar>?f i j + (if query ! i = target ! j then m else r)\<bar> \<le> int (Suc i + Suc j) * B"
    using a 3(4,5) B0 unfolding e by (auto split: if_splits)
  moreover have "\<bar>?f i (Suc j) + ins\<bar> \<le> int (Suc i + Suc j) * B"
    using b 3(6) unfolding e by simp
  moreover have "\<bar>?f (Suc i) j + del\<bar> \<le> int (Suc i + Suc j) * B"
    using c 3(7) unfolding e by simp
  ultimately show ?case
    by (simp add: max_def)
qed

lemma nw_of_int:
  "\<bar>sint (Match params)\<bar> \<le> B \<Longrightarrow> \<bar>sint (Mismatch params)\<bar> \<le> B \<Longrightarrow>
   \<bar>sint (Insert params)\<bar> \<le> B \<Longrightarrow> \<bar>sint (Delete params)\<bar> \<le> B \<Longrightarrow>
   int (i + j) * B < 2 ^ 31 \<Longrightarrow>
     nw params target query i j =
       word_of_int (nw_int (sint (Match params)) (sint (Mismatch params)) (sint (Insert params))
          (sint (Delete params)) target query i j)"
proof (induction params target query i j rule: nw.induct)
  case (1 params target query j)
  show ?case by simp
next
  case (2 params target query i)
  show ?case by simp
next
  case (3 params target query i j)
  let ?m = "sint (Match params)" and ?r = "sint (Mismatch params)"
  let ?ins = "sint (Insert params)" and ?del = "sint (Delete params)"
  let ?f = "nw_int ?m ?r ?ins ?del target query"
  note bnd = "3.prems"(1-4)
  have B0: "0 \<le> B" using bnd(1) by simp
  have e: "int (Suc i + Suc j) * B = int (i + j) * B + 2 * B"
    "int (i + Suc j) * B = int (i + j) * B + B" "int (Suc i + j) * B = int (i + j) * B + B"
    by (simp_all add: algebra_simps)
  have lt: "int (i + j) * B < 2 ^ 31" "int (i + Suc j) * B < 2 ^ 31" "int (Suc i + j) * B < 2 ^ 31"
    using "3.prems"(5) B0 unfolding e by simp_all
  have ih: "nw params target query i j = word_of_int (?f i j)"
    "nw params target query i (Suc j) = word_of_int (?f i (Suc j))"
    "nw params target query (Suc i) j = word_of_int (?f (Suc i) j)"
    using "3.IH" bnd lt by simp_all
  have a: "\<bar>?f i j\<bar> \<le> int (i + j) * B" and b: "\<bar>?f i (Suc j)\<bar> \<le> int (i + Suc j) * B"
    and c: "\<bar>?f (Suc i) j\<bar> \<le> int (Suc i + j) * B"
    by (rule nw_int_bound [OF bnd])+
  define x where "x = ?f i j + (if query ! i = target ! j then ?m else ?r)"
  define y where "y = ?f i (Suc j) + ?ins"
  define z where "z = ?f (Suc i) j + ?del"
  have "\<bar>x\<bar> \<le> int (Suc i + Suc j) * B"
    using a bnd(1,2) B0 unfolding e x_def by (auto split: if_splits)
  moreover have "\<bar>y\<bar> \<le> int (Suc i + Suc j) * B"
    using b bnd(3) unfolding e y_def by simp
  moreover have "\<bar>z\<bar> \<le> int (Suc i + Suc j) * B"
    using c bnd(4) unfolding e z_def by simp
  ultimately have rng: "- (2 ^ 31) \<le> x" "x < 2 ^ 31" "- (2 ^ 31) \<le> y" "y < 2 ^ 31"
    "- (2 ^ 31) \<le> z" "z < 2 ^ 31"
    using "3.prems"(5) by simp_all
  have "nw params target query i j
          + (if query ! i = target ! j then Match params else Mismatch params) = word_of_int x"
    by (simp add: ih x_def)
  moreover have "nw params target query i (Suc j) + Insert params = word_of_int y"
    by (simp add: ih y_def)
  moreover have "nw params target query (Suc i) j + Delete params = word_of_int z"
    by (simp add: ih z_def)
  ultimately have "nw params target query (Suc i) (Suc j) = word_of_int (max x (max y z))"
    by (simp add: Max3_of_int [OF rng])
  then show ?case
    by (simp add: x_def y_def z_def)
qed

lemma nw_sint:
  assumes "\<bar>sint (Match params)\<bar> \<le> B" "\<bar>sint (Mismatch params)\<bar> \<le> B"
    "\<bar>sint (Insert params)\<bar> \<le> B" "\<bar>sint (Delete params)\<bar> \<le> B"
    and "int (i + j) * B < 2 ^ 31"
  shows "sint (nw params target query i j) =
       nw_int (sint (Match params)) (sint (Mismatch params)) (sint (Insert params))
          (sint (Delete params)) target query i j"
proof -
  let ?z = "nw_int (sint (Match params)) (sint (Mismatch params)) (sint (Insert params))
          (sint (Delete params)) target query i j"
  have "\<bar>?z\<bar> \<le> int (i + j) * B"
    using assms(1-4) by (rule nw_int_bound)
  with assms(5) have "- (2 ^ 31) \<le> ?z" "?z < 2 ^ 31"
    by simp_all
  then have "sint (word_of_int ?z :: cint) = ?z"
    by (rule sint_of_int_range)
  then show ?thesis
    using nw_of_int [OF assms] by simp
qed

text \<open>
  Beyond that range the sums wrap around.  With a match score of \<open>2147483647\<close> the
  diagonal candidate of the last cell of \<open>AA\<close> against \<open>AA\<close> wraps to \<open>-2\<close>; the stored
  score is \<open>2147483645\<close> and the traceback leaves the diagonal.
\<close>

lemma Align_overflow_example:
  "Align ''AA'' ''AA''
     \<lparr>Params = \<lparr>Match = 2147483647, Mismatch = - 1, Insert = - 1, Delete = - 1\<rparr>, Mode = GLOBAL\<rparr>
   = (Some 2147483645, Inr \<lparr>Target = ''AA-'', Query = ''-AA'', Transcript = ''DMI''\<rparr>)"
  by code_simp

text \<open>
  Claim C2: for every target \<open>t\<close> and query \<open>q\<close>, \<open>Align\<close> in \<open>GLOBAL\<close> mode fills the
  \<open>(|q|+1) \<times> (|t|+1)\<close> matrix, whatever the allocated matrix held, with row 0 set to
  \<open>j \<cdot> delete\<close>, column 0 set to \<open>i \<cdot> insert\<close> and every interior cell set to the maximum
  of the diagonal, insert and delete candidates, all in the 32-bit arithmetic of the
  program; and the score it stores is \<open>S(|q|, |t|)\<close>.  Whenever the four scores are at
  most \<open>B\<close> in absolute value and \<open>(|t| + |q|) \<cdot> B < 2^31\<close>, no sum overflows and the
  cells, read as signed integers, are the recurrence of the specification over the
  integers.
\<close>

theorem Align_score_matrix:
  fixes target query :: string and config :: AlignConfig and Score0 :: matrix
  defines "params \<equiv> Params config"
  defines "S \<equiv> scoreMatrix params target query Score0"
  assumes "Mode config = GLOBAL"
  shows "(\<forall>j\<le>length target. S 0 j = of_nat j * Delete params)
       \<and> (\<forall>i\<le>length query. S i 0 = of_nat i * Insert params)
       \<and> (\<forall>i j. 1 \<le> i \<and> i \<le> length query \<and> 1 \<le> j \<and> j \<le> length target \<longrightarrow>
            S i j = Max3 (S (i - 1) (j - 1)
                           + (if query ! (i - 1) = target ! (j - 1)
                              then Match params else Mismatch params))
                         (S (i - 1) j + Insert params)
                         (S i (j - 1) + Delete params))
       \<and> fst (Align target query config) = Some (S (length query) (length target))
       \<and> (\<forall>B. \<bar>sint (Match params)\<bar> \<le> B \<and> \<bar>sint (Mismatch params)\<bar> \<le> B
               \<and> \<bar>sint (Insert params)\<bar> \<le> B \<and> \<bar>sint (Delete params)\<bar> \<le> B
               \<and> int (length target + length query) * B < 2 ^ 31 \<longrightarrow>
            (\<forall>i\<le>length query. \<forall>j\<le>length target.
               sint (S i j) =
                 nw_int (sint (Match params)) (sint (Mismatch params)) (sint (Insert params))
                   (sint (Delete params)) target query i j))"
proof (intro conjI allI impI)
  fix j assume "j \<le> length target"
  then show "S 0 j = of_nat j * Delete params"
    by (simp add: S_def scoreMatrix_nw)
next
  fix i assume "i \<le> length query"
  then show "S i 0 = of_nat i * Insert params"
    by (simp add: S_def scoreMatrix_nw nw_0_col)
next
  fix i j assume "1 \<le> i \<and> i \<le> length query \<and> 1 \<le> j \<and> j \<le> length target"
  then obtain i' j' where ij: "i = Suc i'" "j = Suc j'" "Suc i' \<le> length query" "Suc j' \<le> length target"
    by (cases i; cases j) auto
  then show "S i j = Max3 (S (i - 1) (j - 1)
                           + (if query ! (i - 1) = target ! (j - 1)
                              then Match params else Mismatch params))
                         (S (i - 1) j + Insert params)
                         (S i (j - 1) + Delete params)"
    by (simp add: S_def scoreMatrix_nw)
next
  have "scoreMatrix params target query (\<lambda>i j. 0) (length query) (length target)
          = S (length query) (length target)"
    by (simp add: S_def scoreMatrix_nw)
  then show "fst (Align target query config) = Some (S (length query) (length target))"
    using assms(3) by (simp add: Align_def Let_def params_def split: prod.splits)
next
  fix B i j
  assume b: "\<bar>sint (Match params)\<bar> \<le> B \<and> \<bar>sint (Mismatch params)\<bar> \<le> B
               \<and> \<bar>sint (Insert params)\<bar> \<le> B \<and> \<bar>sint (Delete params)\<bar> \<le> B
               \<and> int (length target + length query) * B < 2 ^ 31"
    and ij: "i \<le> length query" "j \<le> length target"
  from b have "\<bar>sint (Match params)\<bar> \<le> B" by simp
  then have B0: "0 \<le> B" by linarith
  from ij have "int (i + j) \<le> int (length target + length query)" by simp
  then have "int (i + j) * B \<le> int (length target + length query) * B"
    using B0 by (rule mult_right_mono)
  with b have lt: "int (i + j) * B < 2 ^ 31" by simp
  have "S i j = nw params target query i j"
    using ij by (simp add: S_def scoreMatrix_nw)
  moreover have "sint (nw params target query i j) =
                 nw_int (sint (Match params)) (sint (Mismatch params)) (sint (Insert params))
                   (sint (Delete params)) target query i j"
    using b lt by (intro nw_sint [where B = B]) simp_all
  ultimately show "sint (S i j) =
                 nw_int (sint (Match params)) (sint (Mismatch params)) (sint (Insert params))
                   (sint (Delete params)) target query i j"
    by simp
qed

theorem Align_score_matrix_witness:
  "fst (Align ''GAT'' ''GT'' \<lparr>Params = editParams, Mode = GLOBAL\<rparr>)
     = Some (scoreMatrix editParams ''GAT'' ''GT'' (\<lambda>i j. 0) 2 3)
   \<and> scoreMatrix editParams ''GAT'' ''GT'' (\<lambda>i j. 0) 2 3 = - 1
   \<and> scoreMatrix editParams ''GAT'' ''GT'' (\<lambda>i j. 0) 0 3 = - 3
   \<and> sint (scoreMatrix editParams ''GAT'' ''GT'' (\<lambda>i j. 0) 2 3)
       = nw_int 0 (- 1) (- 1) (- 1) ''GAT'' ''GT'' 2 3"
proof -
  have "Mode \<lparr>Params = editParams, Mode = GLOBAL\<rparr> = GLOBAL"
    by simp
  note inst = Align_score_matrix [OF this, of "''GAT''" "''GT''" "\<lambda>i j. 0"]
  from inst
  have a: "fst (Align ''GAT'' ''GT'' \<lparr>Params = editParams, Mode = GLOBAL\<rparr>)
     = Some (scoreMatrix editParams ''GAT'' ''GT'' (\<lambda>i j. 0) 2 3)"
    and b: "scoreMatrix editParams ''GAT'' ''GT'' (\<lambda>i j. 0) 0 3 = of_nat 3 * Delete editParams"
    by simp_all
  have p: "sint (Match editParams) = 0" "sint (Mismatch editParams) = - 1"
    "sint (Insert editParams) = - 1" "sint (Delete editParams) = - 1"
    by (simp_all add: editParams_def)
  from inst [THEN conjunct2, THEN conjunct2, THEN conjunct2, THEN conjunct2, THEN spec, of 1]
  have "\<bar>sint (Match editParams)\<bar> \<le> 1 \<and> \<bar>sint (Mismatch editParams)\<bar> \<le> 1
               \<and> \<bar>sint (Insert editParams)\<bar> \<le> 1 \<and> \<bar>sint (Delete editParams)\<bar> \<le> 1
               \<and> int (length ''GAT'' + length ''GT'') * 1 < 2 ^ 31 \<longrightarrow>
            (\<forall>i\<le>length ''GT''. \<forall>j\<le>length ''GAT''.
               sint (scoreMatrix editParams ''GAT'' ''GT'' (\<lambda>i j. 0) i j) =
                 nw_int (sint (Match editParams)) (sint (Mismatch editParams))
                   (sint (Insert editParams)) (sint (Delete editParams)) ''GAT'' ''GT'' i j)"
    by (simp only: AlignConfig.simps)
  then have c: "sint (scoreMatrix editParams ''GAT'' ''GT'' (\<lambda>i j. 0) 2 3)
       = nw_int 0 (- 1) (- 1) (- 1) ''GAT'' ''GT'' 2 3"
    unfolding p by simp
  have d: "scoreMatrix editParams ''GAT'' ''GT'' (\<lambda>i j. 0) 2 3 = - 1"
    by code_simp
  from a b c d show ?thesis
    by (simp add: editParams_def)
qed

subsection \<open>The traceback\<close>

lemma traceback_step:
  "0 < i \<or> 0 < j \<Longrightarrow>
   traceback params target query Sc i j raQuery raTarget =
     (let move =
           (if i = 0 then 2
            else if j = 0 then 1
            else ArgMax3 (diagScore params target query Sc i j)
                         (insScore params Sc i j) (delScore params Sc i j))
      in
           if move = 0 then
             traceback params target query Sc (i - 1) (j - 1)
               (raQuery @ [query ! (i - 1)]) (raTarget @ [target ! (j - 1)])
           else if move = 1 then
             traceback params target query Sc (i - 1) j
               (raQuery @ [query ! (i - 1)]) (raTarget @ [CHR ''-''])
           else
             traceback params target query Sc i (j - 1)
               (raQuery @ [CHR ''-'']) (raTarget @ [target ! (j - 1)]))"
  by (subst traceback.simps) simp

lemma strip_gaps_snoc:
  "strip_gaps (xs @ [c]) = (if c = CHR ''-'' then strip_gaps xs else strip_gaps xs @ [c])"
  by (simp add: strip_gaps_def)

lemma noGapPair_Cons:
  "noGapPair (a # bt) (b # bq) \<longleftrightarrow> \<not> (a = CHR ''-'' \<and> b = CHR ''-'') \<and> noGapPair bt bq"
  by (simp add: noGapPair_def)

lemma tb_ok_Nil: "tb_ok target query 0 0 raQuery raTarget (raQuery, raTarget)"
  by (simp add: tb_ok_def strip_gaps_def noGapPair_def)

lemma tb_ok_push:
  assumes "tb_ok target query i' j' (raQuery @ [qc]) (raTarget @ [tc]) res"
    and "\<not> (qc = CHR ''-'' \<and> tc = CHR ''-'')"
    and "strip_gaps (take j' target @ [tc]) = take j target"
    and "strip_gaps (take i' query @ [qc]) = take i query"
    and "CHR ''-'' \<notin> set target" "CHR ''-'' \<notin> set query"
  shows "tb_ok target query i j raQuery raTarget res"
proof -
  from assms(1) obtain bq bt where b: "res = ((raQuery @ [qc]) @ bq, (raTarget @ [tc]) @ bt)"
    "length bq = length bt" "strip_gaps (rev bt) = take j' target"
    "strip_gaps (rev bq) = take i' query" "noGapPair bt bq"
    unfolding tb_ok_def by auto
  have nt: "strip_gaps (take j' target) = take j' target"
    using assms(5) by (auto simp: strip_gaps_def filter_id_conv dest: in_set_takeD)
  have nq: "strip_gaps (take i' query) = take i' query"
    using assms(6) by (auto simp: strip_gaps_def filter_id_conv dest: in_set_takeD)
  have st: "strip_gaps (rev (tc # bt)) = take j target"
    using assms(3) b(3) nt by (simp add: strip_gaps_def)
  have sq: "strip_gaps (rev (qc # bq)) = take i query"
    using assms(4) b(4) nq by (simp add: strip_gaps_def)
  show ?thesis
    unfolding tb_ok_def
  proof (intro exI conjI)
    show "res = (raQuery @ (qc # bq), raTarget @ (tc # bt))" using b(1) by simp
    show "length (qc # bq) = length (tc # bt)" using b(2) by simp
    show "strip_gaps (rev (tc # bt)) = take j target" by (rule st)
    show "strip_gaps (rev (qc # bq)) = take i query" by (rule sq)
    show "noGapPair (tc # bt) (qc # bq)" using b(5) assms(2) by (auto simp: noGapPair_Cons)
  qed
qed

lemma take_pred_snoc: "0 < n \<Longrightarrow> n \<le> length xs \<Longrightarrow> take (n - 1) xs @ [xs ! (n - 1)] = take n xs"
  by (cases n) (simp_all add: take_Suc_conv_app_nth)

lemma strip_gaps_id: "CHR ''-'' \<notin> set xs \<Longrightarrow> strip_gaps xs = xs"
  by (induction xs) (auto simp: strip_gaps_def)

lemma strip_gaps_take_snoc:
  assumes "CHR ''-'' \<notin> set xs" "0 < n" "n \<le> length xs"
  shows "strip_gaps (take (n - 1) xs @ [xs ! (n - 1)]) = take n xs"
proof -
  have ng: "CHR ''-'' \<notin> set (take n xs)"
    using assms(1) by (auto dest: in_set_takeD)
  have e: "take (n - 1) xs @ [xs ! (n - 1)] = take n xs"
    using assms(2,3) by (rule take_pred_snoc)
  show ?thesis
    unfolding e using ng by (rule strip_gaps_id)
qed

lemma strip_gaps_take_gap:
  assumes "CHR ''-'' \<notin> set xs"
  shows "strip_gaps (take n xs @ [CHR ''-'']) = take n xs"
proof -
  have "CHR ''-'' \<notin> set (take n xs)"
    using assms(1) by (auto dest: in_set_takeD)
  then show ?thesis
    by (simp add: strip_gaps_snoc strip_gaps_id)
qed

lemma traceback_inv:
  "CHR ''-'' \<notin> set target \<Longrightarrow> CHR ''-'' \<notin> set query \<Longrightarrow>
   i \<le> length query \<Longrightarrow> j \<le> length target \<Longrightarrow>
    tb_ok target query i j raQuery raTarget
      (traceback params target query Sc i j raQuery raTarget)"
proof (induction params target query Sc i j raQuery raTarget rule: traceback.induct)
  case (1 params target query Sc i j raQuery raTarget)
  note assms = "1.prems"(1,2)
  show ?case
  proof (cases "0 < i \<or> 0 < j")
    case False
    then show ?thesis
      by (simp add: traceback.simps tb_ok_Nil)
  next
    case True
    define move where "move =
           (if i = 0 then 2
            else if j = 0 then 1
            else ArgMax3 (diagScore params target query Sc i j)
                         (insScore params Sc i j) (delScore params Sc i j))"
    note step = traceback_step [OF True, of params target query Sc raQuery raTarget,
        folded move_def, unfolded Let_def]
    have tgt: "c \<in> set target \<Longrightarrow> c \<noteq> CHR ''-''" for c using assms(1) by auto
    have qry: "c \<in> set query \<Longrightarrow> c \<noteq> CHR ''-''" for c using assms(2) by auto
    consider (diag) "move = 0" | (ins) "move = 1" | (del) "move \<noteq> 0" "move \<noteq> 1"
      by blast
    then show ?thesis
    proof cases
      case diag
      then have pos: "0 < i" "0 < j"
        by (auto simp: move_def split: if_splits)
      with "1.prems" have lt: "i - 1 < length query" "j - 1 < length target"
        by simp_all
      have ng: "query ! (i - 1) \<noteq> CHR ''-''" "target ! (j - 1) \<noteq> CHR ''-''"
        using lt qry tgt by simp_all
      have IH: "tb_ok target query (i - 1) (j - 1)
               (raQuery @ [query ! (i - 1)]) (raTarget @ [target ! (j - 1)])
               (traceback params target query Sc (i - 1) (j - 1)
               (raQuery @ [query ! (i - 1)]) (raTarget @ [target ! (j - 1)]))"
        by (rule "1.IH"(1) [OF True move_def diag]) (use lt assms in simp_all)
      have "tb_ok target query i j raQuery raTarget
               (traceback params target query Sc (i - 1) (j - 1)
               (raQuery @ [query ! (i - 1)]) (raTarget @ [target ! (j - 1)]))"
        using IH
      proof (rule tb_ok_push)
        show "\<not> (query ! (i - 1) = CHR ''-'' \<and> target ! (j - 1) = CHR ''-'')" using ng by simp
        show "strip_gaps (take (j - 1) target @ [target ! (j - 1)]) = take j target"
          using pos "1.prems" by (intro strip_gaps_take_snoc) simp_all
        show "strip_gaps (take (i - 1) query @ [query ! (i - 1)]) = take i query"
          using pos "1.prems" by (intro strip_gaps_take_snoc) simp_all
      qed (rule assms)+
      then show ?thesis
        using diag by (simp add: step)
    next
      case ins
      then have pos: "0 < i"
        by (auto simp: move_def split: if_splits)
      with "1.prems" have lt: "i - 1 < length query"
        by simp_all
      have ng: "query ! (i - 1) \<noteq> CHR ''-''"
        using lt qry by simp_all
      have IH: "tb_ok target query (i - 1) j
               (raQuery @ [query ! (i - 1)]) (raTarget @ [CHR ''-''])
               (traceback params target query Sc (i - 1) j
               (raQuery @ [query ! (i - 1)]) (raTarget @ [CHR ''-'']))"
        by (rule "1.IH"(2) [OF True move_def _ ins]) (use lt ins "1.prems" in simp_all)
      have "tb_ok target query i j raQuery raTarget
               (traceback params target query Sc (i - 1) j
               (raQuery @ [query ! (i - 1)]) (raTarget @ [CHR ''-'']))"
        using IH
      proof (rule tb_ok_push)
        show "\<not> (query ! (i - 1) = CHR ''-'' \<and> CHR ''-'' = CHR ''-'')" using ng by simp
        show "strip_gaps (take j target @ [CHR ''-'']) = take j target"
          using assms by (intro strip_gaps_take_gap) simp_all
        show "strip_gaps (take (i - 1) query @ [query ! (i - 1)]) = take i query"
          using pos "1.prems" by (intro strip_gaps_take_snoc) simp_all
      qed (rule assms)+
      then show ?thesis
        using ins by (simp add: step)
    next
      case del
      then have pos: "0 < j"
        using True by (auto simp: move_def split: if_splits)
      with "1.prems" have lt: "j - 1 < length target"
        by simp_all
      have ng: "target ! (j - 1) \<noteq> CHR ''-''"
        using lt tgt by simp_all
      have IH: "tb_ok target query i (j - 1)
               (raQuery @ [CHR ''-'']) (raTarget @ [target ! (j - 1)])
               (traceback params target query Sc i (j - 1)
               (raQuery @ [CHR ''-'']) (raTarget @ [target ! (j - 1)]))"
        by (rule "1.IH"(3) [OF True move_def del]) (use lt "1.prems" in simp_all)
      have "tb_ok target query i j raQuery raTarget
               (traceback params target query Sc i (j - 1)
               (raQuery @ [CHR ''-'']) (raTarget @ [target ! (j - 1)]))"
        using IH
      proof (rule tb_ok_push)
        show "\<not> (CHR ''-'' = CHR ''-'' \<and> target ! (j - 1) = CHR ''-'')" using ng by simp
        show "strip_gaps (take (j - 1) target @ [target ! (j - 1)]) = take j target"
          using pos "1.prems" by (intro strip_gaps_take_snoc) simp_all
        show "strip_gaps (take i query @ [CHR ''-'']) = take i query"
          using assms by (intro strip_gaps_take_gap) simp_all
      qed (rule assms)+
      then show ?thesis
        using del by (simp add: step)
    qed
  qed
qed

lemma noGapPair_rev:
  assumes "length bt = length bq" "noGapPair bt bq"
  shows "\<not> (\<exists>k. gapColumn (rev bt) (rev bq) k)"
proof -
  have "set (zip (rev bt) (rev bq)) = set (zip bt bq)"
    using assms(1) by (simp add: zip_rev)
  then show ?thesis
    using assms(2) gapColumn_zip [of "rev bt" "rev bq"] assms(1)
    by (auto simp: noGapPair_def)
qed

text \<open>
  Claim C10, as written, for strings of any characters.  With a gap character in both
  inputs the traceback pairs the two gaps in one column, and the constructor that
  \<open>Align\<close> calls on its last line throws: no alignment is returned.
\<close>

theorem Align_gap_input_counterexample:
  "snd (Align ''-'' ''-'' \<lparr>Params = editParams, Mode = GLOBAL\<rparr>) = Inl InvalidInputError"
  by code_simp

text \<open>
  Claim C10, amended: for every target and query string in which the gap character \<open>'-'\<close>
  does not occur (any other characters, any lengths, the empty string included),
  \<open>Align\<close> in \<open>GLOBAL\<close> mode returns an aligned target and an aligned query of equal
  length; removing every \<open>'-'\<close> from the aligned target gives the target, removing every
  \<open>'-'\<close> from the aligned query gives the query, and no column has \<open>'-'\<close> in both.
\<close>

theorem Align_gap_free:
  assumes "Mode config = GLOBAL"
    and "CHR ''-'' \<notin> set target" and "CHR ''-'' \<notin> set query"
  shows "\<exists>aln. snd (Align target query config) = Inr aln
           \<and> length (Target aln) = length (Query aln)
           \<and> strip_gaps (Target aln) = target \<and> strip_gaps (Query aln) = query
           \<and> (\<forall>k<length (Target aln). \<not> (Target aln ! k = CHR ''-'' \<and> Query aln ! k = CHR ''-''))"
proof -
  define Sc where "Sc = scoreMatrix (Params config) target query (\<lambda>i j. 0)"
  have "tb_ok target query (length query) (length target) [] []
          (traceback (Params config) target query Sc (length query) (length target) [] [])"
    using assms(2,3) by (intro traceback_inv) simp_all
  then obtain bq bt where b:
    "traceback (Params config) target query Sc (length query) (length target) [] [] = (bq, bt)"
    "length bq = length bt" "strip_gaps (rev bt) = target" "strip_gaps (rev bq) = query"
    "noGapPair bt bq"
    unfolding tb_ok_def by auto
  have nog: "\<not> (\<exists>k. gapColumn (rev bt) (rev bq) k)"
    using b(2,5) by (intro noGapPair_rev) simp_all
  have new: "newPairwiseAlignment (rev bt) (rev bq)
      = Inr \<lparr>Target = rev bt, Query = rev bq,
              Transcript = map (\<lambda>(t, q). transcriptChar t q) (zip (rev bt) (rev bq))\<rparr>"
    using b(2) nog by (simp add: newPairwiseAlignment_eq)
  have res: "snd (Align target query config)
      = Inr \<lparr>Target = rev bt, Query = rev bq,
              Transcript = map (\<lambda>(t, q). transcriptChar t q) (zip (rev bt) (rev bq))\<rparr>"
    using assms(1) b(1) new by (simp add: Align_def Let_def Sc_def)
  have "\<forall>k<length (rev bt). \<not> (rev bt ! k = CHR ''-'' \<and> rev bq ! k = CHR ''-'')"
    using nog by (auto simp: gapColumn_def)
  then show ?thesis
    using res b(2,3,4) by simp
qed

theorem Align_gap_free_witness:
  "snd (Align ''GAT'' ''GT'' \<lparr>Params = editParams, Mode = GLOBAL\<rparr>)
     = Inr \<lparr>Target = ''GAT'', Query = ''G-T'', Transcript = ''MDM''\<rparr>
   \<and> strip_gaps ''G-T'' = ''GT''"
proof -
  have "\<exists>aln. snd (Align ''GAT'' ''GT'' \<lparr>Params = editParams, Mode = GLOBAL\<rparr>) = Inr aln"
    using Align_gap_free [of "\<lparr>Params = editParams, Mode = GLOBAL\<rparr>" "''GAT''" "''GT''"]
    by auto
  moreover have "Align ''GAT'' ''GT'' \<lparr>Params = editParams, Mode = GLOBAL\<rparr>
     = (Some (- 1), Inr \<lparr>Target = ''GAT'', Query = ''G-T'', Transcript = ''MDM''\<rparr>)"
    by code_simp
  ultimately show ?thesis
    by (simp add: strip_gaps_def)
qed

section \<open>Properties of the span tagging\<close>

lemma tagged_Nil: "\<not> tagged start end [] spanning w"
  by (simp add: tagged_def)

lemma tagged_not_in: "w \<notin> set vs \<Longrightarrow> \<not> tagged start end vs spanning w"
  by (auto simp: tagged_def)

lemma tagged_Cons_end: "\<not> tagged start (Some x) (x # vs) spanning w"
  by (auto simp: tagged_def Cons_eq_append_conv)

lemma tagged_Cons_same:
  assumes nin: "x \<notin> set vs" and ne: "Some x \<noteq> end"
  shows "tagged start end (x # vs) spanning x \<longleftrightarrow> spanning \<or> Some x = start"
proof
  assume "tagged start end (x # vs) spanning x"
  then obtain pre post where p: "x # vs = pre @ x # post"
    "spanning \<or> start \<in> Some ` set (pre @ [x])" "end \<notin> Some ` set (pre @ [x])"
    unfolding tagged_def by auto
  have "pre = []"
    using p(1) nin by (cases pre) auto
  with p(2) show "spanning \<or> Some x = start" by auto
next
  assume "spanning \<or> Some x = start"
  then show "tagged start end (x # vs) spanning x"
    unfolding tagged_def using ne by (intro exI [of _ "[]"] exI [of _ vs]) auto
qed

lemma tagged_Cons_other:
  assumes "w \<noteq> x" "Some x \<noteq> end"
  shows "tagged start end (x # vs) spanning w
           \<longleftrightarrow> tagged start end vs (spanning \<or> Some x = start) w"
proof
  assume "tagged start end (x # vs) spanning w"
  then obtain pre post where p: "x # vs = pre @ w # post"
    "spanning \<or> start \<in> Some ` set (pre @ [w])" "end \<notin> Some ` set (pre @ [w])"
    unfolding tagged_def by auto
  from p(1) assms(1) obtain pre' where pre: "pre = x # pre'" "vs = pre' @ w # post"
    by (cases pre) auto
  show "tagged start end vs (spanning \<or> Some x = start) w"
    unfolding tagged_def using p(2,3) pre by (intro exI [of _ pre'] exI [of _ post]) auto
next
  assume "tagged start end vs (spanning \<or> Some x = start) w"
  then obtain pre post where p: "vs = pre @ w # post"
    "(spanning \<or> Some x = start) \<or> start \<in> Some ` set (pre @ [w])"
    "end \<notin> Some ` set (pre @ [w])"
    unfolding tagged_def by auto
  show "tagged start end (x # vs) spanning w"
    unfolding tagged_def using p assms(2) by (intro exI [of _ "x # pre"] exI [of _ post]) auto
qed

lemma tagSpan_loop_eq:
  "distinct vs \<Longrightarrow>
   tagSpan_loop start end vs spanning nodes w =
     (if tagged start end vs spanning w
      then (nodes w)\<lparr>SpanningReads := SpanningReads (nodes w) + 1\<rparr>
      else nodes w)"
proof (induction vs arbitrary: spanning nodes)
  case Nil
  then show ?case by (simp add: tagged_Nil)
next
  case (Cons x vs)
  then have d: "distinct vs" and nin: "x \<notin> set vs" by simp_all
  show ?case
  proof (cases "Some x = end")
    case True
    then show ?thesis using tagged_Cons_end [of start x vs spanning w] by auto
  next
    case False
    note ne = False
    let ?sp = "spanning \<or> Some x = start"
    let ?nodes' = "if ?sp then nodes(x := (nodes x)\<lparr>SpanningReads := SpanningReads (nodes x) + 1\<rparr>) else nodes"
    have step: "tagSpan_loop start end (x # vs) spanning nodes = tagSpan_loop start end vs ?sp ?nodes'"
      using ne by (auto simp: Let_def)
    show ?thesis
    proof (cases "w = x")
      case True
      then show ?thesis
        unfolding step Cons.IH [OF d]
        using nin ne by (simp add: tagged_not_in tagged_Cons_same)
    next
      case False
      then show ?thesis
        unfolding step Cons.IH [OF d]
        using ne by (simp add: tagged_Cons_other)
    qed
  qed
qed

text \<open>
  Claim C6: with \<open>sortedVertices\<close> listing every vertex once, \<open>tagSpan\<close> adds one to
  \<open>spanning_reads\<close> of exactly the vertices that stand in the order at or after
  \<open>startSpan\<close> and strictly before \<open>endSpan\<close>; the vertices before \<open>startSpan\<close>, the
  vertex \<open>endSpan\<close> and the vertices after it keep their node unchanged, and nothing
  else in the graph changes.
\<close>

theorem tagSpan_increments:
  assumes "distinct sortedVertices"
  shows "tagSpan sortedVertices (Some startSpan) (Some endSpan) g =
     g\<lparr>vertexInfoMap := \<lambda>w.
         if \<exists>pre post. sortedVertices = pre @ w # post
               \<and> startSpan \<in> set (pre @ [w]) \<and> endSpan \<notin> set (pre @ [w])
         then (vertexInfoMap g w)\<lparr>SpanningReads := SpanningReads (vertexInfoMap g w) + 1\<rparr>
         else vertexInfoMap g w\<rparr>"
proof -
  have "tagSpan_loop (Some startSpan) (Some endSpan) sortedVertices False (vertexInfoMap g) =
     (\<lambda>w. if \<exists>pre post. sortedVertices = pre @ w # post
               \<and> startSpan \<in> set (pre @ [w]) \<and> endSpan \<notin> set (pre @ [w])
         then (vertexInfoMap g w)\<lparr>SpanningReads := SpanningReads (vertexInfoMap g w) + 1\<rparr>
         else vertexInfoMap g w)"
  proof (rule ext)
    fix w
    have "tagged (Some startSpan) (Some endSpan) sortedVertices False w
        \<longleftrightarrow> (\<exists>pre post. sortedVertices = pre @ w # post
               \<and> startSpan \<in> set (pre @ [w]) \<and> endSpan \<notin> set (pre @ [w]))"
      unfolding tagged_def by (simp add: image_iff)
    then show "tagSpan_loop (Some startSpan) (Some endSpan) sortedVertices False (vertexInfoMap g) w =
       (if \<exists>pre post. sortedVertices = pre @ w # post
               \<and> startSpan \<in> set (pre @ [w]) \<and> endSpan \<notin> set (pre @ [w])
         then (vertexInfoMap g w)\<lparr>SpanningReads := SpanningReads (vertexInfoMap g w) + 1\<rparr>
         else vertexInfoMap g w)"
      by (simp only: tagSpan_loop_eq [OF assms])
  qed
  then show ?thesis
    by (simp add: tagSpan_def)
qed

theorem tagSpan_increments_witness:
  "map (\<lambda>w. SpanningReads (vertexInfoMap (tagSpan [0, 2, 3, 4, 1] (Some 2) (Some 4) chainGGG) w))
     [0, 2, 3, 4, 1] = [0, 1, 1, 0, 0]
   \<and> tagSpan [0, 2, 3, 4, 1] (Some 2) (Some 4) chainGGG =
     chainGGG\<lparr>vertexInfoMap := \<lambda>w.
         if \<exists>pre post. [0, 2, 3, 4, 1] = pre @ w # post
               \<and> 2 \<in> set (pre @ [w]) \<and> 4 \<notin> set (pre @ [w])
         then (vertexInfoMap chainGGG w)\<lparr>SpanningReads := SpanningReads (vertexInfoMap chainGGG w) + 1\<rparr>
         else vertexInfoMap chainGGG w\<rparr>"
proof -
  have d: "distinct [0, 2, 3, 4, 1 :: nat]"
    by simp
  have a: "map (\<lambda>w. SpanningReads (vertexInfoMap (tagSpan [0, 2, 3, 4, 1] (Some 2) (Some 4) chainGGG) w))
             [0, 2, 3, 4, 1] = [0, 1, 1, 0, 0]"
    by (simp add: tagSpan_def chainGGG_def node_def)
  show ?thesis
    by (rule conjI [OF a tagSpan_increments [OF d]])
qed

section \<open>Properties of the consensus path\<close>

subsection \<open>A running maximum\<close>

lemma fold_max_eq_Max: "fold max xs (a::real) = Max (insert a (set xs))"
  using Max.set_eq_fold [of a xs] by simp

lemma fold_max_ge_init: "(a::real) \<le> fold max xs a"
  by (simp add: fold_max_eq_Max)

lemma fold_max_ge_elem: "x \<in> set xs \<Longrightarrow> (x::real) \<le> fold max xs a"
  by (simp add: fold_max_eq_Max)

lemma fold_max_cases: "fold max xs (a::real) = a \<or> fold max xs a \<in> set xs"
proof -
  have "Max (insert a (set xs)) \<in> insert a (set xs)"
    by (rule Max_in) simp_all
  then show ?thesis
    by (simp add: fold_max_eq_Max)
qed

subsection \<open>The inner loop\<close>

lemma cp_edge_info_other: "w \<noteq> v \<Longrightarrow> info (cp_edge rnd score v e st) w = info st w"
  by (simp add: cp_edge_def Let_def)

lemma cp_edge_bestPrev_other:
  "w \<noteq> v \<Longrightarrow> bestPrevVertex (cp_edge rnd score v e st) w = bestPrevVertex st w"
  by (simp add: cp_edge_def Let_def)

lemma cp_edge_info_same:
  "info (cp_edge rnd score v e st) v =
     (info st v)\<lparr>ReachingScore :=
        max (rnd (score + ReachingScore (info st (fst e)))) (ReachingScore (info st v))\<rparr>"
  by (simp add: cp_edge_def Let_def max_def)

lemma cp_edge_best:
  "bestReachingScore (cp_edge rnd score v e st) =
     max (rnd (score + ReachingScore (info st (fst e)))) (bestReachingScore st)"
  "bestVertex (cp_edge rnd score v e st) =
     (if bestReachingScore st < rnd (score + ReachingScore (info st (fst e)))
      then Some v else bestVertex st)"
  by (simp_all add: cp_edge_def Let_def max_def)

lemma fold_cp_edge_info_other:
  "w \<noteq> v \<Longrightarrow> info (fold (cp_edge rnd score v) es st) w = info st w"
  by (induction es arbitrary: st) (simp_all add: cp_edge_info_other)

lemma fold_cp_edge_info_same:
  assumes "\<forall>e\<in>set es. fst e \<noteq> v"
  shows "info (fold (cp_edge rnd score v) es st) v =
     (info st v)\<lparr>ReachingScore :=
        fold max (rsc_list rnd score (info st) es) (ReachingScore (info st v))\<rparr>"
  using assms
proof (induction es arbitrary: st)
  case Nil
  then show ?case by (simp add: rsc_list_def)
next
  case (Cons e es)
  let ?st1 = "cp_edge rnd score v e st"
  have src: "rsc_list rnd score (info ?st1) es = rsc_list rnd score (info st) es"
    using Cons.prems by (auto simp: rsc_list_def cp_edge_info_other)
  show ?case
    using Cons.prems by (simp add: Cons.IH src cp_edge_info_same) (simp add: rsc_list_def)
qed

lemma fold_cp_edge_bestRS:
  assumes "\<forall>e\<in>set es. fst e \<noteq> v"
  shows "bestReachingScore (fold (cp_edge rnd score v) es st) =
     fold max (rsc_list rnd score (info st) es) (bestReachingScore st)"
  using assms
proof (induction es arbitrary: st)
  case Nil
  then show ?case by (simp add: rsc_list_def)
next
  case (Cons e es)
  let ?st1 = "cp_edge rnd score v e st"
  have src: "rsc_list rnd score (info ?st1) es = rsc_list rnd score (info st) es"
    using Cons.prems by (auto simp: rsc_list_def cp_edge_info_other)
  show ?case
    using Cons.prems by (simp add: Cons.IH src cp_edge_best) (simp add: rsc_list_def)
qed

lemma fold_cp_edge_best_mono:
  "bestReachingScore st \<le> bestReachingScore (fold (cp_edge rnd score v) es st)"
proof (induction es arbitrary: st)
  case Nil
  then show ?case by simp
next
  case (Cons e es)
  have "bestReachingScore st \<le> bestReachingScore (cp_edge rnd score v e st)"
    by (simp add: cp_edge_best)
  also have "\<dots> \<le> bestReachingScore (fold (cp_edge rnd score v) es (cp_edge rnd score v e st))"
    by (rule Cons.IH)
  finally show ?case by simp
qed

lemma fold_cp_edge_bestVertex:
  "bestVertex (fold (cp_edge rnd score v) es st) =
     (if bestReachingScore st < bestReachingScore (fold (cp_edge rnd score v) es st)
      then Some v else bestVertex st)"
proof (induction es arbitrary: st)
  case Nil
  then show ?case by simp
next
  case (Cons e es)
  let ?st1 = "cp_edge rnd score v e st"
  note mono = fold_cp_edge_best_mono [of _ rnd score v es]
  have "bestReachingScore st \<le> bestReachingScore ?st1"
    by (simp add: cp_edge_best)
  then show ?case
    using mono [of ?st1] by (auto simp: Cons.IH cp_edge_best)
qed

lemma rsc_list_cong:
  "(\<And>e. e \<in> set es \<Longrightarrow> n1 (fst e) = n2 (fst e)) \<Longrightarrow>
   rsc_list rnd score n1 es = rsc_list rnd score n2 es"
  by (simp add: rsc_list_def)

subsection \<open>The outer loop\<close>

lemma cp_vertex_info_other:
  "w \<noteq> v \<Longrightarrow> info (cp_vertex rnd mode minCoverage g v st) w = info st w"
  by (simp add: cp_vertex_def Let_def fold_cp_edge_info_other)

lemma cp_vertex_info_same:
  assumes "\<forall>e\<in>set (inEdges v g). fst e \<noteq> v"
  shows "info (cp_vertex rnd mode minCoverage g v st) v =
     (info st v)\<lparr>Score := scoreOf rnd mode minCoverage g (info st) v,
        ReachingScore := fold max
          (rsc_list rnd (scoreOf rnd mode minCoverage g (info st) v) (info st) (inEdges v g))
          (scoreOf rnd mode minCoverage g (info st) v)\<rparr>"
proof -
  define sc where "sc = scoreOf rnd mode minCoverage g (info st) v"
  let ?st1 = "st\<lparr>info := (info st)(v := (info st v)\<lparr>Score := sc, ReachingScore := sc\<rparr>),
                    bestPrevVertex := (bestPrevVertex st)(v := None)\<rparr>"
  have "rsc_list rnd sc (info ?st1) (inEdges v g) = rsc_list rnd sc (info st) (inEdges v g)"
    using assms(1) by (intro rsc_list_cong) auto
  then show ?thesis
    using assms(1)
    by (simp add: cp_vertex_def Let_def scoreOf_def [symmetric] sc_def [symmetric]
        fold_cp_edge_info_same)
qed

lemma cp_vertex_bestRS:
  assumes "\<forall>e\<in>set (inEdges v g). fst e \<noteq> v"
  shows "bestReachingScore (cp_vertex rnd mode minCoverage g v st) =
     fold max (rsc_list rnd (scoreOf rnd mode minCoverage g (info st) v) (info st) (inEdges v g))
       (bestReachingScore st)"
proof -
  define sc where "sc = scoreOf rnd mode minCoverage g (info st) v"
  let ?st1 = "st\<lparr>info := (info st)(v := (info st v)\<lparr>Score := sc, ReachingScore := sc\<rparr>),
                    bestPrevVertex := (bestPrevVertex st)(v := None)\<rparr>"
  have "rsc_list rnd sc (info ?st1) (inEdges v g) = rsc_list rnd sc (info st) (inEdges v g)"
    using assms(1) by (intro rsc_list_cong) auto
  then show ?thesis
    using assms(1)
    by (simp add: cp_vertex_def Let_def scoreOf_def [symmetric] sc_def [symmetric]
        fold_cp_edge_bestRS)
qed

lemma cp_vertex_bestVertex:
  "bestVertex (cp_vertex rnd mode minCoverage g v st) =
     (if bestReachingScore st < bestReachingScore (cp_vertex rnd mode minCoverage g v st)
      then Some v else bestVertex st)"
  by (simp add: cp_vertex_def Let_def fold_cp_edge_bestVertex)

lemma cp_vertex_counts:
  "Reads (info (cp_vertex rnd mode minCoverage g v st) w) = Reads (info st w)"
  "SpanningReads (info (cp_vertex rnd mode minCoverage g v st) w) = SpanningReads (info st w)"
proof -
  have "Reads (info (fold (cp_edge rnd score v) es st') w) = Reads (info st' w)
      \<and> SpanningReads (info (fold (cp_edge rnd score v) es st') w) = SpanningReads (info st' w)"
    for score es st'
    by (induction es arbitrary: st') (auto simp: cp_edge_def Let_def)
  then show "Reads (info (cp_vertex rnd mode minCoverage g v st) w) = Reads (info st w)"
    "SpanningReads (info (cp_vertex rnd mode minCoverage g v st) w) = SpanningReads (info st w)"
    by (simp_all add: cp_vertex_def Let_def)
qed

lemma scoreOf_cong:
  "Reads (n1 v) = Reads (n2 v) \<Longrightarrow> SpanningReads (n1 v) = SpanningReads (n2 v) \<Longrightarrow>
   scoreOf rnd mode minCoverage g n1 v = scoreOf rnd mode minCoverage g n2 v"
  by (simp add: scoreOf_def)

lemma sources_done_Cons:
  assumes "sources_done g (x # xs)"
  shows "sources_done g xs" and "\<forall>e\<in>set (inEdges x g). fst e \<notin> set (x # xs)"
proof -
  show "sources_done g xs"
    unfolding sources_done_def
  proof (intro allI impI)
    fix pre w post assume "xs = pre @ w # post"
    then have "x # xs = (x # pre) @ w # post" by simp
    with assms show "\<forall>e\<in>set (inEdges w g). fst e \<notin> set (w # post)"
      unfolding sources_done_def by blast
  qed
  have "x # xs = [] @ x # xs" by simp
  with assms show "\<forall>e\<in>set (inEdges x g). fst e \<notin> set (x # xs)"
    unfolding sources_done_def by blast
qed

lemma fold_cp_vertex_info_other:
  "w \<notin> set ws \<Longrightarrow> info (fold (cp_vertex rnd mode minCoverage g) ws st) w = info st w"
  by (induction ws arbitrary: st) (simp_all add: cp_vertex_info_other)

lemma fold_cp_vertex_info:
  assumes "distinct ws" "sources_done g ws" "w \<in> set ws"
  shows "info (fold (cp_vertex rnd mode minCoverage g) ws st) w =
     (info st w)\<lparr>Score := scoreOf rnd mode minCoverage g (info st) w,
        ReachingScore := fold max
          (rsc_list rnd (scoreOf rnd mode minCoverage g (info st) w)
             (info (fold (cp_vertex rnd mode minCoverage g) ws st)) (inEdges w g))
          (scoreOf rnd mode minCoverage g (info st) w)\<rparr>"
  using assms
proof (induction ws arbitrary: st)
  case Nil
  then show ?case by simp
next
  case (Cons x xs)
  let ?st1 = "cp_vertex rnd mode minCoverage g x st"
  let ?st' = "fold (cp_vertex rnd mode minCoverage g) xs ?st1"
  have d: "distinct xs" "x \<notin> set xs" using Cons.prems(1) by simp_all
  note sd = sources_done_Cons [OF Cons.prems(2)]
  show ?case
  proof (cases "w = x")
    case True
    have self: "\<forall>e\<in>set (inEdges x g). fst e \<noteq> x"
      using sd(2) by auto
    have "info ?st' x = info ?st1 x"
      using d(2) by (rule fold_cp_vertex_info_other)
    moreover have "rsc_list rnd sc (info ?st') (inEdges x g) = rsc_list rnd sc (info st) (inEdges x g)"
      for sc
    proof (rule rsc_list_cong)
      fix e assume "e \<in> set (inEdges x g)"
      with sd(2) have "fst e \<notin> set xs" "fst e \<noteq> x" by auto
      then show "info ?st' (fst e) = info st (fst e)"
        by (simp add: fold_cp_vertex_info_other cp_vertex_info_other)
    qed
    ultimately show ?thesis
      using True by (simp add: cp_vertex_info_same [OF self])
  next
    case False
    with Cons.prems(3) have w: "w \<in> set xs" by simp
    have same: "info ?st1 w = info st w"
      using False by (rule cp_vertex_info_other)
    then have sc: "scoreOf rnd mode minCoverage g (info ?st1) w
                     = scoreOf rnd mode minCoverage g (info st) w"
      by (simp add: scoreOf_def)
    show ?thesis
      using Cons.IH [OF d(1) sd(1) w, of ?st1] by (simp add: sc same)
  qed
qed

lemma fold_cp_vertex_best:
  fixes rnd :: "real \<Rightarrow> real" and mode :: AlignMode and minCoverage :: int
    and g :: PoaGraphImpl
  assumes "distinct ws" "sources_done g ws"
  defines "run \<equiv> fold (cp_vertex rnd mode minCoverage g)"
  shows "bestReachingScore st \<le> bestReachingScore (run ws st)
     \<and> (\<forall>w\<in>set ws. \<forall>r\<in>set (rsc_list rnd (scoreOf rnd mode minCoverage g (info st) w)
                                   (info (run ws st)) (inEdges w g)).
            r \<le> bestReachingScore (run ws st))
     \<and> ((bestVertex (run ws st) = bestVertex st
           \<and> bestReachingScore (run ws st) = bestReachingScore st)
        \<or> (\<exists>b\<in>set ws. bestVertex (run ws st) = Some b
              \<and> bestReachingScore (run ws st)
                   \<in> set (rsc_list rnd (scoreOf rnd mode minCoverage g (info st) b)
                           (info (run ws st)) (inEdges b g))
              \<and> bestReachingScore st < bestReachingScore (run ws st)))"
  using assms(1,2)
proof (induction ws arbitrary: st)
  case Nil
  then show ?case by (simp add: run_def)
next
  case (Cons x xs)
  let ?st1 = "cp_vertex rnd mode minCoverage g x st"
  let ?st' = "run xs ?st1"
  have run_Cons: "run (x # xs) st = ?st'" by (simp add: run_def)
  have d: "distinct xs" "x \<notin> set xs" using Cons.prems(1) by simp_all
  note sd = sources_done_Cons [OF Cons.prems(2)]
  have self: "\<forall>e\<in>set (inEdges x g). fst e \<noteq> x"
    using sd(2) by auto
  let ?scx = "scoreOf rnd mode minCoverage g (info st) x"
  let ?R1 = "rsc_list rnd ?scx (info st) (inEdges x g)"
  have R1: "rsc_list rnd ?scx (info ?st') (inEdges x g) = ?R1"
  proof (rule rsc_list_cong)
    fix e assume "e \<in> set (inEdges x g)"
    with sd(2) have "fst e \<notin> set xs" "fst e \<noteq> x" by auto
    then show "info ?st' (fst e) = info st (fst e)"
      by (simp add: run_def fold_cp_vertex_info_other cp_vertex_info_other)
  qed
  have b1: "bestReachingScore ?st1 = fold max ?R1 (bestReachingScore st)"
    by (rule cp_vertex_bestRS [OF self])
  have le1: "bestReachingScore st \<le> bestReachingScore ?st1"
    unfolding b1 by (rule fold_max_ge_init)
  have el1: "r \<le> bestReachingScore ?st1" if "r \<in> set ?R1" for r
    unfolding b1 using that by (rule fold_max_ge_elem)
  have sc: "scoreOf rnd mode minCoverage g (info ?st1) w
              = scoreOf rnd mode minCoverage g (info st) w" for w
    by (rule scoreOf_cong) (simp_all add: cp_vertex_counts)
  note IH = Cons.IH [OF d(1) sd(1), of ?st1, unfolded sc]
  from IH have le2: "bestReachingScore ?st1 \<le> bestReachingScore ?st'"
    and el2: "\<forall>w\<in>set xs. \<forall>r\<in>set (rsc_list rnd (scoreOf rnd mode minCoverage g (info st) w)
                                   (info ?st') (inEdges w g)). r \<le> bestReachingScore ?st'"
    and dj: "(bestVertex ?st' = bestVertex ?st1 \<and> bestReachingScore ?st' = bestReachingScore ?st1)
        \<or> (\<exists>b\<in>set xs. bestVertex ?st' = Some b
              \<and> bestReachingScore ?st'
                   \<in> set (rsc_list rnd (scoreOf rnd mode minCoverage g (info st) b)
                           (info ?st') (inEdges b g))
              \<and> bestReachingScore ?st1 < bestReachingScore ?st')"
    by blast+
  have A: "bestReachingScore st \<le> bestReachingScore ?st'"
    using le1 le2 by (rule order_trans)
  have B: "\<forall>w\<in>set (x # xs). \<forall>r\<in>set (rsc_list rnd (scoreOf rnd mode minCoverage g (info st) w)
                                   (info ?st') (inEdges w g)). r \<le> bestReachingScore ?st'"
  proof (intro ballI)
    fix w r assume w: "w \<in> set (x # xs)"
      and r: "r \<in> set (rsc_list rnd (scoreOf rnd mode minCoverage g (info st) w)
                                   (info ?st') (inEdges w g))"
    show "r \<le> bestReachingScore ?st'"
    proof (cases "w = x")
      case True
      with r R1 have "r \<in> set ?R1" by simp
      then have "r \<le> bestReachingScore ?st1" by (rule el1)
      then show ?thesis using le2 by (rule order_trans)
    next
      case False
      with w have "w \<in> set xs" by simp
      with el2 r show ?thesis by blast
    qed
  qed
  have C: "(bestVertex ?st' = bestVertex st \<and> bestReachingScore ?st' = bestReachingScore st)
        \<or> (\<exists>b\<in>set (x # xs). bestVertex ?st' = Some b
              \<and> bestReachingScore ?st'
                   \<in> set (rsc_list rnd (scoreOf rnd mode minCoverage g (info st) b)
                           (info ?st') (inEdges b g))
              \<and> bestReachingScore st < bestReachingScore ?st')"
    using dj
  proof (elim disjE conjE bexE)
    fix b assume b: "b \<in> set xs" "bestVertex ?st' = Some b"
      "bestReachingScore ?st'
                   \<in> set (rsc_list rnd (scoreOf rnd mode minCoverage g (info st) b)
                           (info ?st') (inEdges b g))"
      "bestReachingScore ?st1 < bestReachingScore ?st'"
    have "bestReachingScore st < bestReachingScore ?st'"
      using le1 b(4) by simp
    with b show ?thesis by auto
  next
    assume same: "bestVertex ?st' = bestVertex ?st1" "bestReachingScore ?st' = bestReachingScore ?st1"
    show ?thesis
    proof (cases "bestReachingScore st < bestReachingScore ?st1")
      case True
      then have bv: "bestVertex ?st1 = Some x"
        by (simp add: cp_vertex_bestVertex)
      have "bestReachingScore ?st1 \<in> set ?R1"
        using fold_max_cases [of ?R1 "bestReachingScore st"] True unfolding b1 by auto
      then show ?thesis
        using same bv True R1 by auto
    next
      case False
      then have "bestReachingScore ?st1 = bestReachingScore st"
        using le1 by simp
      moreover have "bestVertex ?st1 = bestVertex st"
        using False by (simp add: cp_vertex_bestVertex)
      ultimately show ?thesis
        using same by simp
    qed
  qed
  show ?case
    unfolding run_Cons using A B C by blast
qed

subsection \<open>The loop over a topological order\<close>

lemma topological_middle:
  assumes "topological vs (edges g)" "2 \<le> length vs"
  shows "distinct (butlast (tl vs))" and "hd vs \<notin> set (butlast (tl vs))"
    and "sources_done g (butlast (tl vs))"
proof -
  from assms(2) obtain f rest where vs: "vs = f # rest" "rest \<noteq> []"
    by (cases vs; cases "tl vs") auto
  then have split: "vs = f # butlast rest @ [last rest]"
    by simp
  have dist: "distinct vs" using assms(1) by (simp add: topological_def)
  then have "distinct rest" "f \<notin> set rest" using vs by auto
  then show "distinct (butlast (tl vs))" "hd vs \<notin> set (butlast (tl vs))"
    using vs by (auto simp: distinct_butlast dest: in_set_butlastD)
  show "sources_done g (butlast (tl vs))"
    unfolding sources_done_def
  proof (intro allI impI ballI)
    fix pre w post e
    assume mid: "butlast (tl vs) = pre @ w # post" and e: "e \<in> set (inEdges w g)"
    then have edge: "(fst e, w) \<in> set (edges g)"
      by (auto simp: inEdges_def)
    have "rest = butlast rest @ [last rest]"
      using vs(2) by simp
    then have "rest = (pre @ w # post) @ [last rest]"
      using mid vs(1) by simp
    then have vs': "vs = (f # pre) @ w # (post @ [last rest])"
      using vs(1) by simp
    with assms(1) edge have "fst e \<in> set (f # pre)"
      unfolding topological_def by blast
    moreover have "distinct ((f # pre) @ w # (post @ [last rest]))"
      using dist vs' by simp
    ultimately show "fst e \<notin> set (w # post)"
      by auto
  qed
qed

lemma topological_takeWhile:
  "topological vs es \<longleftrightarrow>
     distinct vs \<and> (\<forall>(a, b) \<in> set es. b \<in> set vs \<longrightarrow> a \<in> set (takeWhile (\<lambda>x. x \<noteq> b) vs))"
proof -
  have pre: "pre = takeWhile (\<lambda>x. x \<noteq> b) vs" if "vs = pre @ b # post" "distinct vs"
    for pre b post
  proof -
    have "b \<notin> set pre" using that by auto
    then have "takeWhile (\<lambda>x. x \<noteq> b) (pre @ b # post)
                 = pre @ takeWhile (\<lambda>x. x \<noteq> b) (b # post)"
      by (intro takeWhile_append2) auto
    then show ?thesis using that(1) by simp
  qed
  have dec: "\<exists>post. vs = takeWhile (\<lambda>x. x \<noteq> b) vs @ b # post" if "b \<in> set vs" for b
  proof -
    have "dropWhile (\<lambda>x. x \<noteq> b) vs \<noteq> []"
      using that by (simp add: dropWhile_eq_Nil_conv)
    moreover have "hd (dropWhile (\<lambda>x. x \<noteq> b) vs) = b"
      using that hd_dropWhile [of "\<lambda>x. x \<noteq> b" vs] by (simp add: dropWhile_eq_Nil_conv)
    ultimately obtain post where "dropWhile (\<lambda>x. x \<noteq> b) vs = b # post"
      by (cases "dropWhile (\<lambda>x. x \<noteq> b) vs") auto
    then have "vs = takeWhile (\<lambda>x. x \<noteq> b) vs @ b # post"
      using takeWhile_dropWhile_id [of "\<lambda>x. x \<noteq> b" vs] by simp
    then show ?thesis ..
  qed
  show ?thesis
  proof
    assume t: "topological vs es"
    then have d: "distinct vs" by (simp add: topological_def)
    moreover have "a \<in> set (takeWhile (\<lambda>x. x \<noteq> b) vs)" if "(a, b) \<in> set es" "b \<in> set vs" for a b
    proof -
      from dec [OF that(2)] obtain post where "vs = takeWhile (\<lambda>x. x \<noteq> b) vs @ b # post" ..
      with t that(1) show ?thesis
        unfolding topological_def by blast
    qed
    ultimately show "distinct vs \<and> (\<forall>(a, b) \<in> set es. b \<in> set vs \<longrightarrow> a \<in> set (takeWhile (\<lambda>x. x \<noteq> b) vs))"
      by auto
  next
    assume r: "distinct vs \<and> (\<forall>(a, b) \<in> set es. b \<in> set vs \<longrightarrow> a \<in> set (takeWhile (\<lambda>x. x \<noteq> b) vs))"
    show "topological vs es"
      unfolding topological_def
    proof (intro conjI ballI allI impI, goal_cases)
      case 1
      show ?case using r by simp
    next
      case (2 e)
      show ?case
      proof (clarify)
        fix a b pre post assume "e = (a, b)" "vs = pre @ b # post"
        with 2 r pre [of pre b post] show "a \<in> set pre"
          by auto
      qed
    qed
  qed
qed

lemma rsc_image:
  "set (rsc_list rnd sc nodes (inEdges v g))
     = {rnd (sc + ReachingScore (nodes u)) |u. (u, v) \<in> set (edges g)}"
  by (force simp: rsc_list_def inEdges_def)

subsection \<open>The best previous vertex\<close>

lemma cp_edge_bestPrev_same:
  "bestPrevVertex (cp_edge rnd score v e st) v =
     (if ReachingScore (info st v) < rnd (score + ReachingScore (info st (fst e)))
      then Some (fst e) else bestPrevVertex st v)"
  by (simp add: cp_edge_def Let_def)

lemma fold_cp_edge_bestPrev_other:
  "w \<noteq> v \<Longrightarrow> bestPrevVertex (fold (cp_edge rnd score v) es st) w = bestPrevVertex st w"
  by (induction es arbitrary: st) (simp_all add: cp_edge_bestPrev_other)

lemma fold_cp_edge_bestPrev:
  assumes "\<forall>e\<in>set es. fst e \<noteq> v"
  shows "(ReachingScore (info (fold (cp_edge rnd score v) es st) v) = ReachingScore (info st v)
          \<and> bestPrevVertex (fold (cp_edge rnd score v) es st) v = bestPrevVertex st v)
       \<or> (ReachingScore (info st v) < ReachingScore (info (fold (cp_edge rnd score v) es st) v)
          \<and> (\<exists>e\<in>set es. bestPrevVertex (fold (cp_edge rnd score v) es st) v = Some (fst e)
                \<and> rnd (score + ReachingScore (info st (fst e)))
                    = ReachingScore (info (fold (cp_edge rnd score v) es st) v)))"
  using assms
proof (induction es arbitrary: st)
  case Nil
  then show ?case by simp
next
  case (Cons e es)
  let ?st1 = "cp_edge rnd score v e st"
  let ?st' = "fold (cp_edge rnd score v) es ?st1"
  let ?r = "rnd (score + ReachingScore (info st (fst e)))"
  have src: "info ?st1 (fst e') = info st (fst e')" if "e' \<in> set es" for e'
    using that Cons.prems by (simp add: cp_edge_info_other)
  have rs1: "ReachingScore (info ?st1 v) = max ?r (ReachingScore (info st v))"
    by (simp add: cp_edge_info_same)
  have bp1: "bestPrevVertex ?st1 v =
      (if ReachingScore (info st v) < ?r then Some (fst e) else bestPrevVertex st v)"
    by (rule cp_edge_bestPrev_same)
  from Cons.prems have "\<forall>e\<in>set es. fst e \<noteq> v" by simp
  from Cons.IH [OF this, of ?st1]
  consider (same) "ReachingScore (info ?st' v) = ReachingScore (info ?st1 v)"
      "bestPrevVertex ?st' v = bestPrevVertex ?st1 v"
    | (later) e' where "ReachingScore (info ?st1 v) < ReachingScore (info ?st' v)"
      "e' \<in> set es" "bestPrevVertex ?st' v = Some (fst e')"
      "rnd (score + ReachingScore (info ?st1 (fst e'))) = ReachingScore (info ?st' v)"
    by blast
  then show ?case
  proof cases
    case same
    show ?thesis
    proof (cases "ReachingScore (info st v) < ?r")
      case True
      with same rs1 bp1 show ?thesis by (auto simp: max_def)
    next
      case False
      with same rs1 bp1 show ?thesis by (auto simp: max_def)
    qed
  next
    case later
    have "ReachingScore (info st v) \<le> ReachingScore (info ?st1 v)"
      unfolding rs1 by simp
    with later(1) have "ReachingScore (info st v) < ReachingScore (info ?st' v)"
      by simp
    moreover have "rnd (score + ReachingScore (info st (fst e'))) = ReachingScore (info ?st' v)"
      using later(4) src [OF later(2)] by simp
    ultimately show ?thesis
      using later(2,3) by auto
  qed
qed

lemma cp_vertex_bestPrev_other:
  "w \<noteq> v \<Longrightarrow> bestPrevVertex (cp_vertex rnd mode minCoverage g v st) w = bestPrevVertex st w"
  by (simp add: cp_vertex_def Let_def fold_cp_edge_bestPrev_other)

lemma fold_cp_vertex_bestPrev_other:
  "w \<notin> set ws \<Longrightarrow>
   bestPrevVertex (fold (cp_vertex rnd mode minCoverage g) ws st) w = bestPrevVertex st w"
  by (induction ws arbitrary: st) (simp_all add: cp_vertex_bestPrev_other)

lemma prev_ok_frame:
  assumes "prev_ok rnd g st w" and "bestPrevVertex st' w = bestPrevVertex st w"
    and "info st' w = info st w"
    and "\<And>u. (u, w) \<in> set (edges g) \<Longrightarrow> info st' u = info st u"
  shows "prev_ok rnd g st' w"
  using assms unfolding prev_ok_def by (auto split: option.splits)

lemma cp_vertex_prev_ok:
  assumes "\<forall>e\<in>set (inEdges v g). fst e \<noteq> v"
  shows "prev_ok rnd g (cp_vertex rnd mode minCoverage g v st) v"
proof -
  define sc where "sc = scoreOf rnd mode minCoverage g (info st) v"
  define st1 where "st1 = st\<lparr>info := (info st)(v := (info st v)\<lparr>Score := sc, ReachingScore := sc\<rparr>),
                    bestPrevVertex := (bestPrevVertex st)(v := None)\<rparr>"
  define st' where "st' = fold (cp_edge rnd sc v) (inEdges v g) st1"
  have eq: "cp_vertex rnd mode minCoverage g v st = st'"
    by (simp add: cp_vertex_def Let_def scoreOf_def st'_def st1_def sc_def)
  have i': "info st' v = (info st1 v)\<lparr>ReachingScore :=
        fold max (rsc_list rnd sc (info st1) (inEdges v g)) (ReachingScore (info st1 v))\<rparr>"
    unfolding st'_def using assms by (rule fold_cp_edge_info_same)
  then have sc': "Score (info st' v) = sc"
    by (simp add: st1_def)
  have src: "info st' (fst e) = info st1 (fst e)" if "e \<in> set (inEdges v g)" for e
    unfolding st'_def using that assms by (simp add: fold_cp_edge_info_other)
  have edge: "(fst e, v) \<in> set (edges g)" if "e \<in> set (inEdges v g)" for e
    using that by (auto simp: inEdges_def)
  from fold_cp_edge_bestPrev [OF assms, of rnd sc st1, folded st'_def]
  consider (none) "ReachingScore (info st' v) = ReachingScore (info st1 v)"
      "bestPrevVertex st' v = bestPrevVertex st1 v"
    | (some) e where "ReachingScore (info st1 v) < ReachingScore (info st' v)"
      "e \<in> set (inEdges v g)" "bestPrevVertex st' v = Some (fst e)"
      "rnd (sc + ReachingScore (info st1 (fst e))) = ReachingScore (info st' v)"
    by blast
  then have "prev_ok rnd g st' v"
  proof cases
    case none
    then show ?thesis
      by (simp add: prev_ok_def sc' st1_def)
  next
    case some
    from some(1) have "sc < ReachingScore (info st' v)"
      by (simp add: st1_def)
    with some(3,4) src [OF some(2)] edge [OF some(2)] show ?thesis
      by (simp add: prev_ok_def sc')
  qed
  then show ?thesis
    by (simp add: eq)
qed

lemma fold_cp_vertex_prev_ok:
  assumes "distinct ws" "sources_done g ws" "w \<in> set ws"
  shows "prev_ok rnd g (fold (cp_vertex rnd mode minCoverage g) ws st) w"
  using assms
proof (induction ws arbitrary: st)
  case Nil
  then show ?case by simp
next
  case (Cons x xs)
  let ?st1 = "cp_vertex rnd mode minCoverage g x st"
  let ?st' = "fold (cp_vertex rnd mode minCoverage g) xs ?st1"
  have d: "distinct xs" "x \<notin> set xs" using Cons.prems(1) by simp_all
  note sd = sources_done_Cons [OF Cons.prems(2)]
  show ?case
  proof (cases "w = x")
    case True
    have self: "\<forall>e\<in>set (inEdges x g). fst e \<noteq> x"
      using sd(2) by auto
    have "prev_ok rnd g ?st1 x"
      using self by (rule cp_vertex_prev_ok)
    then have "prev_ok rnd g ?st' x"
    proof (rule prev_ok_frame)
      show "bestPrevVertex ?st' x = bestPrevVertex ?st1 x"
        using d(2) by (rule fold_cp_vertex_bestPrev_other)
      show "info ?st' x = info ?st1 x"
        using d(2) by (rule fold_cp_vertex_info_other)
      fix u assume "(u, x) \<in> set (edges g)"
      then have "(u, x) \<in> set (inEdges x g)"
        by (simp add: inEdges_def)
      with sd(2) have "u \<notin> set xs" by auto
      then show "info ?st' u = info ?st1 u"
        by (rule fold_cp_vertex_info_other)
    qed
    with True show ?thesis by simp
  next
    case False
    with Cons.prems(3) have "w \<in> set xs" by simp
    from Cons.IH [OF d(1) sd(1) this, of ?st1] show ?thesis by simp
  qed
qed

subsection \<open>The traceback\<close>

lemma length_takeWhile_less:
  "x \<in> set xs \<Longrightarrow> \<not> P x \<Longrightarrow> length (takeWhile P xs) < length xs"
  by (induction xs) auto

lemma rank_less:
  assumes "u \<in> set (takeWhile (\<lambda>y. y \<noteq> v) vs)"
  shows "rank vs u < rank vs v"
proof -
  let ?T = "takeWhile (\<lambda>y. y \<noteq> v) vs"
  have "takeWhile (\<lambda>y. y \<noteq> u) (?T @ dropWhile (\<lambda>y. y \<noteq> v) vs) = takeWhile (\<lambda>y. y \<noteq> u) ?T"
    using assms by (intro takeWhile_append1) auto
  then have "rank vs u = length (takeWhile (\<lambda>y. y \<noteq> u) ?T)"
    by (simp add: rank_def)
  also have "\<dots> < length ?T"
    using assms by (intro length_takeWhile_less) auto
  finally show ?thesis
    by (simp add: rank_def)
qed

lemma cp_traceback_chain:
  assumes desc: "\<And>x u. bestPrev x = Some u \<Longrightarrow> r u < (r x :: nat)"
  shows "\<exists>c. cp_traceback bestPrev (Some x) path = Some (c @ path) \<and> c \<noteq> [] \<and> last c = x
           \<and> bestPrev (hd c) = None
           \<and> (\<forall>k. Suc k < length c \<longrightarrow> bestPrev (c ! Suc k) = Some (c ! k))"
proof (induction "r x" arbitrary: x path rule: less_induct)
  case less
  have step: "cp_traceback bestPrev (Some x) path = cp_traceback bestPrev (bestPrev x) (x # path)"
    by (subst cp_traceback.simps) simp
  show ?case
  proof (cases "bestPrev x")
    case None
    then have "cp_traceback bestPrev (Some x) path = Some ([x] @ path)"
      unfolding step by (subst cp_traceback.simps) simp
    with None show ?thesis
      by (intro exI [of _ "[x]"]) simp
  next
    case (Some u)
    from desc [OF Some] have "r u < r x" .
    from less.hyps [OF this, of "x # path"] obtain c
      where c: "cp_traceback bestPrev (Some u) (x # path) = Some (c @ x # path)" "c \<noteq> []"
        "last c = u" "bestPrev (hd c) = None"
        "\<forall>k. Suc k < length c \<longrightarrow> bestPrev (c ! Suc k) = Some (c ! k)"
      by blast
    have chain: "bestPrev ((c @ [x]) ! Suc k) = Some ((c @ [x]) ! k)"
      if "Suc k < length (c @ [x])" for k
    proof (cases "Suc k < length c")
      case True
      with c(5) show ?thesis by (simp add: nth_append)
    next
      case False
      with that have k: "Suc k = length c" by simp
      then have k': "k = length c - 1" by simp
      have "(c @ [x]) ! Suc k = x" "(c @ [x]) ! k = last c"
        using c(2) k unfolding k' by (simp_all add: nth_append last_conv_nth)
      with Some c(3) show ?thesis by simp
    qed
    have "cp_traceback bestPrev (Some x) path = Some ((c @ [x]) @ path)"
      unfolding step Some using c(1) by simp
    moreover have "bestPrev (hd (c @ [x])) = None"
      using c(2,4) by simp
    ultimately show ?thesis
      using chain by (intro exI [of _ "c @ [x]"]) simp
  qed
qed

subsection \<open>The claim\<close>

text \<open>
  Claim C5, as written.  The reaching score of a vertex is not always its score plus the
  highest reaching score of its predecessors: in the graph of the reads \<open>CA\<close> and
  \<open>GA\<close>, in \<open>GLOBAL\<close> mode and in exact arithmetic, vertex 3 (\<open>A\<close>, two reads) has
  score 1.9999 and predecessors of reaching score -0.0001, and its reaching score is
  1.9999, not 1.9998.  And the traceback does not always start at the vertex of the
  highest reaching score: in \<open>graphFan\<close> the path is \<open>[6, 7]\<close>, traced back from vertex 7
  of reaching score 3.9998, while vertex 6 has reaching score 3.9999.
\<close>

theorem consensusPath_counterexample:
  "ReachingScore (info (consensusDP (\<lambda>x. x) (2 ^ 128) [0, 4, 2, 3, 1] GLOBAL 0 graphCA_GA) 3)
     = 19999 / 10000
   \<and> Score (info (consensusDP (\<lambda>x. x) (2 ^ 128) [0, 4, 2, 3, 1] GLOBAL 0 graphCA_GA) 3)
       + max (ReachingScore (info (consensusDP (\<lambda>x. x) (2 ^ 128) [0, 4, 2, 3, 1] GLOBAL 0 graphCA_GA) 2))
             (ReachingScore (info (consensusDP (\<lambda>x. x) (2 ^ 128) [0, 4, 2, 3, 1] GLOBAL 0 graphCA_GA) 4))
     = 19998 / 10000
   \<and> map_option (map_sum id fst)
        (consensusPath (\<lambda>x. x) (2 ^ 128) [0, 2, 3, 4, 5, 6, 7, 1] GLOBAL 0 graphFan)
     = Some (Inr [6, 7])
   \<and> ReachingScore (info (consensusDP (\<lambda>x. x) (2 ^ 128) [0, 2, 3, 4, 5, 6, 7, 1] GLOBAL 0 graphFan) 7)
       = 39998 / 10000
   \<and> ReachingScore (info (consensusDP (\<lambda>x. x) (2 ^ 128) [0, 2, 3, 4, 5, 6, 7, 1] GLOBAL 0 graphFan) 6)
       = 39999 / 10000"
  by code_simp

text \<open>
  Claim C5, amended: over a topological order of the graph, for every non-terminal
  vertex \<open>v\<close> the loop assigns \<open>score(v)\<close> and
  \<open>reaching_score(v) = max(score(v), max over predecessors u of score(v) + reaching_score(u))\<close>;
  \<open>best_prev(v)\<close> is null when the reaching score is the score alone (the path starts
  afresh at \<open>v\<close>), and otherwise a predecessor \<open>u\<close> with
  \<open>score(v) + reaching_score(u) = reaching_score(v)\<close>.  The traceback ends: the path
  returned ends at the vertex from which it is traced back, every vertex of it but the
  first is preceded by its \<open>best_prev\<close>, and the first has none (when the loop has
  found no vertex to start from, the assertion fails instead).  Whenever the highest
  reaching score of the non-terminal vertices is the candidate
  \<open>score(v) + reaching_score(u)\<close> of an edge (above \<open>-FLT_MAX\<close>), the traceback starts at
  a vertex whose reaching score is the highest.
\<close>

theorem consensusPath_reaching_score:
  assumes "topological sortedVertices (edges g)" and "2 \<le> length sortedVertices"
  shows "let st = consensusDP rnd FLT_MAX sortedVertices mode minCoverage g;
             middle = butlast (tl sortedVertices);
             SC = (\<lambda>v. Score (info st v));
             RS = (\<lambda>v. ReachingScore (info st v));
             rsc = (\<lambda>v u. rnd (SC v + RS u))
         in (\<forall>v\<in>set middle.
               SC v = nodeScore rnd mode (Reads (vertexInfoMap g v))
                        (SpanningReads (vertexInfoMap g v)) minCoverage (NumReads g)
               \<and> RS v = Max (insert (SC v) {rsc v u |u. (u, v) \<in> set (edges g)})
               \<and> (case bestPrevVertex st v of
                     None \<Rightarrow> RS v = SC v
                   | Some u \<Rightarrow> (u, v) \<in> set (edges g) \<and> rsc v u = RS v \<and> SC v < RS v))
          \<and> (bestVertex st = None \<longrightarrow>
                consensusPath rnd FLT_MAX sortedVertices mode minCoverage g
                  = Some (Inl AssertionFailed))
          \<and> (\<forall>b. bestVertex st = Some b \<longrightarrow>
                b \<in> set middle
                \<and> (\<exists>path. consensusPath rnd FLT_MAX sortedVertices mode minCoverage g
                            = Some (Inr (path, g\<lparr>vertexInfoMap := info st\<rparr>))
                     \<and> path \<noteq> [] \<and> last path = b \<and> bestPrevVertex st (hd path) = None
                     \<and> (\<forall>k. Suc k < length path \<longrightarrow>
                           bestPrevVertex st (path ! Suc k) = Some (path ! k))))
          \<and> ((\<exists>v\<in>set middle. \<exists>u. (u, v) \<in> set (edges g) \<and> - FLT_MAX < rsc v u
                 \<and> rsc v u = Max (RS ` set middle)) \<longrightarrow>
              (\<exists>b\<in>set middle. bestVertex st = Some b \<and> RS b = Max (RS ` set middle)))"
proof -
  define front where "front = hd sortedVertices"
  define middle where "middle = butlast (tl sortedVertices)"
  define info0 where
    "info0 = (vertexInfoMap g)(front := (vertexInfoMap g front)\<lparr>ReachingScore := 0\<rparr>)"
  define st0 where "st0 = \<lparr>info = info0, bestPrevVertex = (\<lambda>v. None), bestVertex = None,
            bestReachingScore = - FLT_MAX\<rparr>"
  define st where "st = fold (cp_vertex rnd mode minCoverage g) middle st0"
  define SC where "SC = (\<lambda>v. Score (info st v))"
  define RS where "RS = (\<lambda>v. ReachingScore (info st v))"
  define rsc where "rsc = (\<lambda>v u. rnd (SC v + RS u))"
  have st_eq: "consensusDP rnd FLT_MAX sortedVertices mode minCoverage g = st"
    by (simp add: consensusDP_def Let_def st_def st0_def info0_def front_def middle_def)
  note tm = topological_middle [OF assms, folded middle_def front_def]
  have sc0: "scoreOf rnd mode minCoverage g (info st0) v
        = nodeScore rnd mode (Reads (vertexInfoMap g v))
                        (SpanningReads (vertexInfoMap g v)) minCoverage (NumReads g)" for v
    by (simp add: scoreOf_def st0_def info0_def)
  have inf: "info st v = (info st0 v)\<lparr>Score := scoreOf rnd mode minCoverage g (info st0) v,
        ReachingScore := fold max
          (rsc_list rnd (scoreOf rnd mode minCoverage g (info st0) v) (info st) (inEdges v g))
          (scoreOf rnd mode minCoverage g (info st0) v)\<rparr>" if "v \<in> set middle" for v
    unfolding st_def using tm(1,3) that by (rule fold_cp_vertex_info)
  have SC: "SC v = scoreOf rnd mode minCoverage g (info st0) v" if "v \<in> set middle" for v
    unfolding SC_def by (subst inf [OF that]) simp
  have cand: "set (rsc_list rnd (SC v) (info st) (inEdges v g))
                = {rsc v u |u. (u, v) \<in> set (edges g)}" for v
    by (simp add: rsc_image rsc_def RS_def)
  have RS: "RS v = Max (insert (SC v) {rsc v u |u. (u, v) \<in> set (edges g)})"
    if "v \<in> set middle" for v
  proof -
    have "RS v = fold max (rsc_list rnd (SC v) (info st) (inEdges v g)) (SC v)"
      unfolding RS_def by (subst inf [OF that]) (simp add: SC [OF that])
    then show ?thesis
      by (simp add: fold_max_eq_Max cand)
  qed
  have fin: "finite {rsc v u |u. (u, v) \<in> set (edges g)}" for v
    unfolding cand [symmetric] by simp
  have rsc_le_RS: "rsc v u \<le> RS v" if "v \<in> set middle" "(u, v) \<in> set (edges g)" for v u
    unfolding RS [OF that(1)] using that(2) fin [of v] by (intro Max_ge) auto
  note best = fold_cp_vertex_best [OF tm(1,3), where rnd = rnd and mode = mode
      and minCoverage = minCoverage and st = st0, folded st_def]
  have ub: "rsc v u \<le> bestReachingScore st" if "v \<in> set middle" "(u, v) \<in> set (edges g)" for v u
  proof -
    have "rsc v u \<in> set (rsc_list rnd (SC v) (info st) (inEdges v g))"
      unfolding cand using that(2) by blast
    then show ?thesis
      using best that(1) SC [OF that(1)] by auto
  qed
  have start: "b \<in> set middle \<and> (\<exists>u. (u, b) \<in> set (edges g) \<and> rsc b u = bestReachingScore st)"
    if "bestVertex st = Some b" for b
  proof -
    from best that have "\<exists>b'\<in>set middle. bestVertex st = Some b'
              \<and> bestReachingScore st
                   \<in> set (rsc_list rnd (scoreOf rnd mode minCoverage g (info st0) b')
                           (info st) (inEdges b' g))"
      by (auto simp: st0_def)
    with that have b: "b \<in> set middle" "bestReachingScore st
                   \<in> set (rsc_list rnd (scoreOf rnd mode minCoverage g (info st0) b)
                           (info st) (inEdges b g))"
      by auto
    from b(2) have "bestReachingScore st \<in> {rsc b u |u. (u, b) \<in> set (edges g)}"
      unfolding cand [symmetric] SC [OF b(1)] .
    with b(1) show ?thesis by auto
  qed
  have highest: "\<exists>b\<in>set middle. bestVertex st = Some b \<and> RS b = Max (RS ` set middle)"
    if "\<exists>v\<in>set middle. \<exists>u. (u, v) \<in> set (edges g) \<and> - FLT_MAX < rsc v u
                 \<and> rsc v u = Max (RS ` set middle)"
  proof -
    from that obtain v u where vu: "v \<in> set middle" "(u, v) \<in> set (edges g)"
      "- FLT_MAX < rsc v u" "rsc v u = Max (RS ` set middle)"
      by blast
    have "rsc v u \<le> bestReachingScore st"
      using vu(1,2) by (rule ub)
    with vu(3) have gt: "bestReachingScore st0 < bestReachingScore st"
      by (simp add: st0_def)
    with best obtain b where b: "b \<in> set middle" "bestVertex st = Some b"
      by auto
    from start [OF b(2)] obtain u' where u': "(u', b) \<in> set (edges g)"
      "rsc b u' = bestReachingScore st"
      by blast
    have le: "RS b \<le> Max (RS ` set middle)"
      using b(1) by (intro Max_ge) auto
    have ge: "Max (RS ` set middle) \<le> RS b"
      using \<open>rsc v u \<le> bestReachingScore st\<close> vu(4) u'(2) rsc_le_RS [OF b(1) u'(1)]
      by simp
    have "RS b = Max (RS ` set middle)"
      using le ge by (rule order_antisym)
    then show ?thesis
      using b by auto
  qed
  have prev: "case bestPrevVertex st v of
                     None \<Rightarrow> RS v = SC v
                   | Some u \<Rightarrow> (u, v) \<in> set (edges g) \<and> rsc v u = RS v \<and> SC v < RS v"
    if "v \<in> set middle" for v
    using fold_cp_vertex_prev_ok [OF tm(1,3) that, of rnd mode minCoverage st0, folded st_def]
    by (simp add: prev_ok_def SC_def RS_def rsc_def split: option.splits)
  have outside: "bestPrevVertex st v = None" if "v \<notin> set middle" for v
    unfolding st_def using that by (simp add: fold_cp_vertex_bestPrev_other st0_def)
  have sub: "set middle \<subseteq> set sortedVertices"
  proof
    fix x assume "x \<in> set middle"
    then have "x \<in> set (tl sortedVertices)"
      unfolding middle_def by (rule in_set_butlastD)
    then show "x \<in> set sortedVertices"
      by (cases sortedVertices) simp_all
  qed
  have desc: "rank sortedVertices u < rank sortedVertices x" if "bestPrevVertex st x = Some u" for x u
  proof -
    from that outside have x: "x \<in> set middle" by force
    with prev [OF x] that have "(u, x) \<in> set (edges g)" by simp
    moreover from x sub have "x \<in> set sortedVertices" by blast
    ultimately have "u \<in> set (takeWhile (\<lambda>y. y \<noteq> x) sortedVertices)"
      using assms(1) unfolding topological_takeWhile by blast
    then show ?thesis by (rule rank_less)
  qed
  have none: "consensusPath rnd FLT_MAX sortedVertices mode minCoverage g
                  = Some (Inl AssertionFailed)" if "bestVertex st = None"
    using that assms(2) by (simp add: consensusPath_def st_eq Let_def)
  have path: "\<exists>path. consensusPath rnd FLT_MAX sortedVertices mode minCoverage g
                            = Some (Inr (path, g\<lparr>vertexInfoMap := info st\<rparr>))
                     \<and> path \<noteq> [] \<and> last path = b \<and> bestPrevVertex st (hd path) = None
                     \<and> (\<forall>k. Suc k < length path \<longrightarrow>
                           bestPrevVertex st (path ! Suc k) = Some (path ! k))"
    if "bestVertex st = Some b" for b
  proof -
    from cp_traceback_chain [of "bestPrevVertex st" "rank sortedVertices" b "[]", OF desc]
    obtain c where c: "cp_traceback (bestPrevVertex st) (Some b) [] = Some c" "c \<noteq> []"
      "last c = b" "bestPrevVertex st (hd c) = None"
      "\<forall>k. Suc k < length c \<longrightarrow> bestPrevVertex st (c ! Suc k) = Some (c ! k)"
      by auto
    have "consensusPath rnd FLT_MAX sortedVertices mode minCoverage g
            = Some (Inr (c, g\<lparr>vertexInfoMap := info st\<rparr>))"
      using that assms(2) c(1) by (simp add: consensusPath_def st_eq Let_def)
    with c show ?thesis by blast
  qed
  have main: "(\<forall>v\<in>set middle.
               SC v = nodeScore rnd mode (Reads (vertexInfoMap g v))
                        (SpanningReads (vertexInfoMap g v)) minCoverage (NumReads g)
               \<and> RS v = Max (insert (SC v) {rsc v u |u. (u, v) \<in> set (edges g)})
               \<and> (case bestPrevVertex st v of
                     None \<Rightarrow> RS v = SC v
                   | Some u \<Rightarrow> (u, v) \<in> set (edges g) \<and> rsc v u = RS v \<and> SC v < RS v))
          \<and> (bestVertex st = None \<longrightarrow>
                consensusPath rnd FLT_MAX sortedVertices mode minCoverage g
                  = Some (Inl AssertionFailed))
          \<and> (\<forall>b. bestVertex st = Some b \<longrightarrow>
                b \<in> set middle
                \<and> (\<exists>path. consensusPath rnd FLT_MAX sortedVertices mode minCoverage g
                            = Some (Inr (path, g\<lparr>vertexInfoMap := info st\<rparr>))
                     \<and> path \<noteq> [] \<and> last path = b \<and> bestPrevVertex st (hd path) = None
                     \<and> (\<forall>k. Suc k < length path \<longrightarrow>
                           bestPrevVertex st (path ! Suc k) = Some (path ! k))))
          \<and> ((\<exists>v\<in>set middle. \<exists>u. (u, v) \<in> set (edges g) \<and> - FLT_MAX < rsc v u
                 \<and> rsc v u = Max (RS ` set middle)) \<longrightarrow>
              (\<exists>b\<in>set middle. bestVertex st = Some b \<and> RS b = Max (RS ` set middle)))"
  proof (intro conjI ballI allI impI)
    fix v assume v: "v \<in> set middle"
    show "SC v = nodeScore rnd mode (Reads (vertexInfoMap g v))
                        (SpanningReads (vertexInfoMap g v)) minCoverage (NumReads g)"
      using SC [OF v] sc0 by simp
    show "RS v = Max (insert (SC v) {rsc v u |u. (u, v) \<in> set (edges g)})"
      by (rule RS [OF v])
    show "case bestPrevVertex st v of
                     None \<Rightarrow> RS v = SC v
                   | Some u \<Rightarrow> (u, v) \<in> set (edges g) \<and> rsc v u = RS v \<and> SC v < RS v"
      by (rule prev [OF v])
  next
    assume "bestVertex st = None"
    then show "consensusPath rnd FLT_MAX sortedVertices mode minCoverage g
                  = Some (Inl AssertionFailed)"
      by (rule none)
  next
    fix b assume b: "bestVertex st = Some b"
    from start [OF b] show "b \<in> set middle" by blast
    from path [OF b]
    show "\<exists>path. consensusPath rnd FLT_MAX sortedVertices mode minCoverage g
                            = Some (Inr (path, g\<lparr>vertexInfoMap := info st\<rparr>))
                     \<and> path \<noteq> [] \<and> last path = b \<and> bestPrevVertex st (hd path) = None
                     \<and> (\<forall>k. Suc k < length path \<longrightarrow>
                           bestPrevVertex st (path ! Suc k) = Some (path ! k))" .
  next
    assume "\<exists>v\<in>set middle. \<exists>u. (u, v) \<in> set (edges g) \<and> - FLT_MAX < rsc v u
                 \<and> rsc v u = Max (RS ` set middle)"
    then show "\<exists>b\<in>set middle. bestVertex st = Some b \<and> RS b = Max (RS ` set middle)"
      by (rule highest)
  qed
  show ?thesis
    unfolding Let_def st_eq [symmetric]
    by (rule main [unfolded SC_def RS_def rsc_def middle_def, folded st_eq])
qed

theorem consensusPath_reaching_score_witness:
  "topological [0, 2, 3, 4, 1] (edges chainGGG)
   \<and> bestPrevVertex dpGGG 2 = None
   \<and> ReachingScore (info dpGGG 2) = Score (info dpGGG 2)
   \<and> bestPrevVertex dpGGG 4 = Some 3
   \<and> Score (info dpGGG 4) + ReachingScore (info dpGGG 3) = ReachingScore (info dpGGG 4)
   \<and> bestVertex dpGGG = Some 4
   \<and> ReachingScore (info dpGGG 4) = Max ((\<lambda>v. ReachingScore (info dpGGG v)) ` set [2, 3, 4])
   \<and> map_option (map_sum id fst)
        (consensusPath (\<lambda>x. x) (2 ^ 128) [0, 2, 3, 4, 1] GLOBAL 0 chainGGG)
     = Some (Inr [2, 3, 4])"
proof -
  have t: "topological [0, 2, 3, 4, 1] (edges chainGGG)"
    by (simp add: topological_takeWhile chainGGG_def)
  have l: "2 \<le> length [0, 2, 3, 4, 1 :: nat]"
    by simp
  have mid: "butlast (tl [0, 2, 3, 4, 1 :: nat]) = [2, 3, 4]"
    by simp
  note inst = consensusPath_reaching_score [OF t l, of "\<lambda>x. x" "2 ^ 128" GLOBAL 0,
      unfolded Let_def mid, folded dpGGG_def]
  note vertices = inst [THEN conjunct1]
  note start = inst [THEN conjunct2, THEN conjunct2, THEN conjunct1, rule_format]
  note highest = inst [THEN conjunct2, THEN conjunct2, THEN conjunct2, rule_format]
  have p2: "bestPrevVertex dpGGG 2 = None" and p4: "bestPrevVertex dpGGG 4 = Some 3"
    and bv: "bestVertex dpGGG = Some 4"
    by code_simp+
  have "(2::nat) \<in> set [2, 3, 4]" by simp
  from vertices [THEN bspec, OF this, THEN conjunct2, THEN conjunct2] p2
  have a: "ReachingScore (info dpGGG 2) = Score (info dpGGG 2)"
    by simp
  have "(4::nat) \<in> set [2, 3, 4]" by simp
  from vertices [THEN bspec, OF this, THEN conjunct2, THEN conjunct2] p4
  have b: "Score (info dpGGG 4) + ReachingScore (info dpGGG 3) = ReachingScore (info dpGGG 4)"
    by simp
  have e: "(3, 4) \<in> set (edges chainGGG)"
    by (simp add: chainGGG_def)
  have lo: "- (2 ^ 128) < Score (info dpGGG 4) + ReachingScore (info dpGGG 3)"
    by code_simp
  have "ReachingScore (info dpGGG 2) \<le> ReachingScore (info dpGGG 4)"
    "ReachingScore (info dpGGG 3) \<le> ReachingScore (info dpGGG 4)"
    by code_simp+
  then have mx: "Max ((\<lambda>v. ReachingScore (info dpGGG v)) ` set [2, 3, 4])
      = ReachingScore (info dpGGG 4)"
    by (simp add: max_def)
  have "\<exists>v\<in>set [2, 3, 4]. \<exists>u. (u, v) \<in> set (edges chainGGG)
      \<and> - (2 ^ 128) < Score (info dpGGG v) + ReachingScore (info dpGGG u)
      \<and> Score (info dpGGG v) + ReachingScore (info dpGGG u)
          = Max ((\<lambda>v. ReachingScore (info dpGGG v)) ` set [2, 3, 4])"
  proof (intro bexI [of _ 4] exI [of _ 3] conjI)
    show "(3, 4) \<in> set (edges chainGGG)" by (rule e)
    show "- (2 ^ 128) < Score (info dpGGG 4) + ReachingScore (info dpGGG 3)" by (rule lo)
    show "Score (info dpGGG 4) + ReachingScore (info dpGGG 3)
          = Max ((\<lambda>v. ReachingScore (info dpGGG v)) ` set [2, 3, 4])"
      unfolding mx by (rule b)
    show "(4::nat) \<in> set [2, 3, 4]" by simp
  qed
  from highest [OF this] obtain b' where "bestVertex dpGGG = Some b'"
    "ReachingScore (info dpGGG b') = Max ((\<lambda>v. ReachingScore (info dpGGG v)) ` set [2, 3, 4])"
    by blast
  with bv have c: "ReachingScore (info dpGGG 4)
      = Max ((\<lambda>v. ReachingScore (info dpGGG v)) ` set [2, 3, 4])"
    by simp
  from start [OF bv] obtain path
    where "consensusPath (\<lambda>x. x) (2 ^ 128) [0, 2, 3, 4, 1] GLOBAL 0 chainGGG
             = Some (Inr (path, chainGGG\<lparr>vertexInfoMap := info dpGGG\<rparr>))"
      and lp: "last path = 4"
    by blast
  have d: "map_option (map_sum id fst)
        (consensusPath (\<lambda>x. x) (2 ^ 128) [0, 2, 3, 4, 1] GLOBAL 0 chainGGG)
     = Some (Inr [2, 3, 4])"
    by code_simp
  from t p2 a p4 b bv c d show ?thesis
    by (intro conjI)
qed

section \<open>Properties of threading\<close>

subsection \<open>Reachability when an edge is added\<close>

lemma no_path_into_source:
  assumes "a \<notin> snd ` E" and "x \<noteq> a"
  shows "(x, a) \<notin> E\<^sup>*"
proof
  assume "(x, a) \<in> E\<^sup>*"
  then show False
  proof (cases rule: rtranclE)
    case base
    with assms(2) show False by simp
  next
    case (step y)
    then have "a \<in> snd ` E" by force
    with assms(1) show False by simp
  qed
qed

lemma no_path_from_sink:
  assumes "b \<notin> fst ` E" and "x \<noteq> b"
  shows "(b, x) \<notin> E\<^sup>*"
proof
  assume "(b, x) \<in> E\<^sup>*"
  then show False
  proof (cases rule: converse_rtranclE)
    case base
    with assms(2) show False by simp
  next
    case (step y)
    then have "b \<in> fst ` E" by force
    with assms(1) show False by simp
  qed
qed

lemma path_avoids_new_source:
  assumes "(x, y) \<in> (insert (a, b) E)\<^sup>*" and "x \<noteq> a" and "a \<notin> snd ` E" and "a \<noteq> b"
  shows "(x, y) \<in> E\<^sup>* \<and> y \<noteq> a"
  using assms(1)
proof (induction rule: rtrancl_induct)
  case base
  show ?case using assms(2) by simp
next
  case (step y z)
  then have y: "y \<noteq> a" "(x, y) \<in> E\<^sup>*" by simp_all
  with step(2) have yz: "(y, z) \<in> E" by auto
  then have "z \<in> snd ` E" by force
  with assms(3) have "z \<noteq> a" by auto
  with y yz show ?case by auto
qed

lemma path_from_new_vertex:
  assumes "(a, y) \<in> (insert (a, b) E)\<^sup>*" and "a \<notin> fst ` E" and "a \<notin> snd ` E" and "a \<noteq> b"
  shows "y = a \<or> (b, y) \<in> E\<^sup>*"
  using assms(1)
proof (cases rule: converse_rtranclE)
  case base
  then show ?thesis by simp
next
  case (step z)
  from step(1) assms(2) have "z = b" by force
  with step(2) assms(3,4) path_avoids_new_source [of b y a b E] show ?thesis by auto
qed

lemma acyclic_edge_back:
  assumes "acyclic E" and "(p, u) \<in> E"
  shows "(u, p) \<notin> E\<^sup>*"
proof
  assume "(u, p) \<in> E\<^sup>*"
  then have "(u, u) \<in> E\<^sup>+" using assms(2) by (rule rtrancl_into_trancl1)
  with assms(1) show False by (simp add: acyclic_def)
qed

lemma no_path_through_edge:
  assumes "(w, u) \<notin> E\<^sup>*" and "(p, u) \<in> E"
  shows "(w, p) \<notin> E\<^sup>*"
  using assms by (meson rtrancl_into_rtrancl)

subsection \<open>Good graphs under the graph operations\<close>

lemma Good_vertexInfoMap [simp]: "Good (g\<lparr>vertexInfoMap := m\<rparr>) = Good g"
  by (simp add: Good_def)

lemma Good_tagSpan [simp]: "Good (tagSpan vs a b g) = Good g"
  by (simp add: tagSpan_def)

lemma extends_refl [simp]: "extends g g"
  by (simp add: extends_def)

lemma extends_trans: "extends g g1 \<Longrightarrow> extends g1 g2 \<Longrightarrow> extends g g2"
  by (auto simp: extends_def)

lemma extends_vertexInfoMap [simp]: "extends g (g'\<lparr>vertexInfoMap := m\<rparr>) = extends g g'"
  by (simp add: extends_def)

lemma extends_tagSpan [simp]: "extends g (tagSpan vs a b g') = extends g g'"
  by (simp add: tagSpan_def)

lemma set_edges_add_edge [simp]:
  "set (edges (add_edge a b g)) = insert (a, b) (set (edges g))"
  by (auto simp: add_edge_def)

lemma add_edge_fields [simp]:
  "numVertices (add_edge a b g) = numVertices g"
  "enterVertex (add_edge a b g) = enterVertex g"
  "exitVertex (add_edge a b g) = exitVertex g"
  by (simp_all add: add_edge_def)

lemma extends_add_edge: "extends g (add_edge a b g)"
  by (auto simp: extends_def)

lemma Good_add_edge:
  assumes "Good g" and "a < numVertices g" and "b < numVertices g"
    and "(b, a) \<notin> (set (edges g))\<^sup>*" and "a \<noteq> exitVertex g" and "b \<noteq> enterVertex g"
  shows "Good (add_edge a b g)"
  using assms unfolding Good_def by (simp add: image_iff)

lemma Good_addVertex: "Good g \<Longrightarrow> Good (snd (addVertex c g))"
  unfolding Good_def addVertex_def by (auto simp: less_Suc_eq)

lemma addVertex_fields [simp]:
  "fst (addVertex c g) = numVertices g"
  "numVertices (snd (addVertex c g)) = Suc (numVertices g)"
  "edges (snd (addVertex c g)) = edges g"
  "enterVertex (snd (addVertex c g)) = enterVertex g"
  "exitVertex (snd (addVertex c g)) = exitVertex g"
  by (simp_all add: addVertex_def)

lemma extends_addVertex: "extends g (snd (addVertex c g))"
  by (simp add: extends_def)

lemma fresh_vertex:
  assumes "Good g"
  shows "numVertices g \<notin> fst ` set (edges g)" and "numVertices g \<notin> snd ` set (edges g)"
  using assms unfolding Good_def by force+

text \<open>One base of a fork chain: a fresh vertex with an edge into the fork.\<close>

lemma fork_step:
  assumes "fork_ok g f u"
  shows "fork_ok (add_edge (numVertices g) f (snd (addVertex c g))) (numVertices g) u"
    and "extends g (add_edge (numVertices g) f (snd (addVertex c g)))"
proof -
  define g' where "g' = add_edge (numVertices g) f (snd (addVertex c g))"
  let ?n = "numVertices g" and ?E = "set (edges g)"
  from assms(1) have G: "Good g" and f: "f < ?n" "f \<noteq> enterVertex g" and u: "u < ?n"
    and fu: "(f, u) \<notin> ?E\<^sup>*"
    by (simp_all add: fork_ok_def)
  have fresh: "?n \<notin> fst ` ?E" "?n \<notin> snd ` ?E" using fresh_vertex [OF G] .
  have "(f, ?n) \<notin> ?E\<^sup>*" using fresh(2) f(1) by (intro no_path_into_source) auto
  moreover have "?n \<noteq> exitVertex g" "?n \<noteq> enterVertex g"
    using G by (auto simp: Good_def)
  ultimately have G': "Good g'"
    unfolding g'_def using G f by (intro Good_add_edge Good_addVertex) simp_all
  have "(?n, u) \<notin> (insert (?n, f) ?E)\<^sup>*"
    using path_from_new_vertex [of ?n u f ?E] fresh f(1) u fu by auto
  with G' f u \<open>?n \<noteq> enterVertex g\<close>
  show "fork_ok (add_edge (numVertices g) f (snd (addVertex c g))) (numVertices g) u"
    by (simp add: fork_ok_def g'_def)
  show "extends g (add_edge (numVertices g) f (snd (addVertex c g)))"
    by (auto simp: extends_def)
qed

lemma threadBases_fork:
  assumes "fork_ok g f u"
  shows "case threadBases sequence bound (g, f, i) of
           (g', f', i') \<Rightarrow> fork_ok g' f' u \<and> extends g g' \<and> i' = min i bound"
  using assms
proof (induction i arbitrary: g f)
  case 0
  then show ?case by (simp add: threadBases.simps)
next
  case (Suc i)
  show ?case
  proof (cases "bound < Suc i")
    case False
    with Suc.prems show ?thesis by (simp add: threadBases.simps)
  next
    case True
    define g1 where "g1 = add_edge (numVertices g) f (snd (addVertex (sequence ! i) g))"
    have unfold: "threadBases sequence bound (g, f, Suc i)
                    = threadBases sequence bound (g1, numVertices g, i)"
      using True by (subst threadBases.simps) (simp add: g1_def case_prod_beta)
    have ok: "fork_ok g1 (numVertices g) u" and ext: "extends g g1"
      unfolding g1_def using fork_step [OF Suc.prems] by blast+
    from Suc.IH [OF ok] ext True show ?thesis
      unfolding unfold by (auto simp: min_def intro: extends_trans)
  qed
qed

subsection \<open>The steps of the traceback\<close>

lemma tt_inv_running:
  assumes "tt_inv g0 st" and "tt_u st \<noteq> exitVertex g0"
  obtains w v' where "tt_v st = Some v'"
    and "(case tt_fork st of None \<Rightarrow> tt_v st | Some f \<Rightarrow> Some f) = Some w"
    and "(case tt_fork st of None \<Rightarrow> v' | Some f \<Rightarrow> f) = w"
    and "tt_fork st = None \<or> tt_fork st = Some w"
    and "fork_ok (tt_graph st) w (tt_u st)"
proof -
  from assms obtain w v' where "tt_v st = Some v'"
    and w: "case tt_fork st of Some f \<Rightarrow> f = w | None \<Rightarrow> tt_v st = Some w"
    and "fork_ok (tt_graph st) w (tt_u st)"
    unfolding tt_inv_def by auto
  then show thesis using that [of v' w] by (cases "tt_fork st") auto
qed

lemma tt_inv_intro:
  assumes "fork_ok g w p" and "extends g0 g" and "p \<noteq> exitVertex g0"
    and "fork = Some w \<or> fork = None \<and> v = w"
  shows "tt_inv g0 \<lparr>tt_graph = g, tt_i = i, tt_u = p, tt_v = Some v, tt_fork = fork\<rparr>"
  using assms unfolding tt_inv_def fork_ok_def by auto

lemma tt_step_Start:
  assumes "cols (tt_u st) = Some c" and "PreviousVertex c (tt_i st) = Some p"
    and "ReachingMove c (tt_i st) = StartMove" and "tt_v st = Some v'"
    and "tt_i st = 0 \<or> mode = LOCAL"
  shows "tt_step sequence cols mode st =
           (case threadBases sequence 0
                   (tt_graph st, (case tt_fork st of None \<Rightarrow> v' | Some f \<Rightarrow> f), tt_i st) of
              (g, fork', i) \<Rightarrow>
                Inr \<lparr>tt_graph = g, tt_i = i, tt_u = p, tt_v = Some (tt_u st),
                     tt_fork = Some fork'\<rparr>)"
  using assms by (auto simp: tt_step_def Let_def)

lemma tt_step_End:
  assumes "cols (tt_u st) = Some c" and "PreviousVertex c (tt_i st) = Some p"
    and "ReachingMove c (tt_i st) = EndMove" and "tt_v st = None" and "tt_fork st = None"
    and "tt_u st = exitVertex (tt_graph st)" and "mode \<noteq> LOCAL"
  shows "tt_step sequence cols mode st =
           Inr \<lparr>tt_graph = tt_graph st, tt_i = tt_i st, tt_u = p, tt_v = Some (tt_u st),
                tt_fork = Some (exitVertex (tt_graph st))\<rparr>"
  using assms by (simp add: tt_step_def Let_def)

lemma tt_step_EndLocal:
  assumes "cols (tt_u st) = Some c" and "PreviousVertex c (tt_i st) = Some p"
    and "ReachingMove c (tt_i st) = EndMove" and "tt_v st = None" and "tt_fork st = None"
    and "tt_u st = exitVertex (tt_graph st)" and "mode = LOCAL" and "cols p = Some pc"
  shows "tt_step sequence cols mode st =
           (case threadBases sequence (ArgMax (ColumnScore pc))
                   (tt_graph st, exitVertex (tt_graph st), tt_i st) of
              (g, fork', i) \<Rightarrow>
                Inr \<lparr>tt_graph = g, tt_i = i, tt_u = p, tt_v = Some (tt_u st),
                     tt_fork = Some fork'\<rparr>)"
  using assms by (simp add: tt_step_def Let_def)

lemma tt_step_Match:
  assumes "cols (tt_u st) = Some c" and "PreviousVertex c (tt_i st) = Some p"
    and "ReachingMove c (tt_i st) = MatchMove" and "0 < tt_i st"
  shows "\<exists>m. tt_step sequence cols mode st =
           Inr \<lparr>tt_graph = (case tt_fork st of None \<Rightarrow> tt_graph st
                                | Some f \<Rightarrow> add_edge (tt_u st) f (tt_graph st))
                             \<lparr>vertexInfoMap := m\<rparr>,
                tt_i = tt_i st - 1, tt_u = p, tt_v = Some (tt_u st), tt_fork = None\<rparr>"
  using assms by (simp add: tt_step_def Let_def) (rule exI, rule refl)

lemma tt_step_Delete:
  assumes "cols (tt_u st) = Some c" and "PreviousVertex c (tt_i st) = Some p"
    and "ReachingMove c (tt_i st) = DeleteMove"
  shows "tt_step sequence cols mode st =
           Inr \<lparr>tt_graph = tt_graph st, tt_i = tt_i st, tt_u = p, tt_v = Some (tt_u st),
                tt_fork = (case tt_fork st of None \<Rightarrow> tt_v st | Some f \<Rightarrow> Some f)\<rparr>"
  using assms by (simp add: tt_step_def Let_def)

lemma tt_step_New:
  assumes "cols (tt_u st) = Some c" and "PreviousVertex c (tt_i st) = Some p"
    and "ReachingMove c (tt_i st) = ExtraMove \<or> ReachingMove c (tt_i st) = MismatchMove"
    and "0 < tt_i st"
    and "(case tt_fork st of None \<Rightarrow> tt_v st | Some f \<Rightarrow> Some f) = Some w"
  shows "tt_step sequence cols mode st =
           Inr \<lparr>tt_graph = add_edge (numVertices (tt_graph st)) w
                              (snd (addVertex (sequence ! (tt_i st - 1)) (tt_graph st))),
                tt_i = tt_i st - 1, tt_u = p, tt_v = Some (tt_u st),
                tt_fork = Some (numVertices (tt_graph st))\<rparr>"
  using assms by (auto simp: tt_step_def Let_def case_prod_beta)

lemma fork_ok_vertexInfoMap [simp]: "fork_ok (g\<lparr>vertexInfoMap := m\<rparr>) f u = fork_ok g f u"
  by (simp add: fork_ok_def)

lemma fork_ok_pred:
  assumes "fork_ok g w u" and "(p, u) \<in> set (edges g)"
  shows "fork_ok g w p" and "p \<noteq> exitVertex g"
proof -
  from assms(1) have G: "Good g" by (simp add: fork_ok_def)
  from G assms(2) have "p < numVertices g" unfolding Good_def by auto
  moreover from assms have "(w, p) \<notin> (set (edges g))\<^sup>*"
    unfolding fork_ok_def by (meson no_path_through_edge)
  ultimately show "fork_ok g w p" using assms(1) by (simp add: fork_ok_def)
  from assms(2) have "p \<in> fst ` set (edges g)" by force
  with G show "p \<noteq> exitVertex g" unfolding Good_def by blast
qed

lemma fork_ok_after_match:
  assumes "Good g" and "(p, u) \<in> set (edges g)"
  shows "fork_ok g u p"
proof -
  from assms have "p < numVertices g" "u < numVertices g" unfolding Good_def by auto
  moreover from assms(2) have "u \<in> snd ` set (edges g)" by force
  with assms(1) have "u \<noteq> enterVertex g" unfolding Good_def by blast
  moreover from assms have "(u, p) \<notin> (set (edges g))\<^sup>*"
    unfolding Good_def by (meson acyclic_edge_back)
  ultimately show ?thesis using assms(1) by (simp add: fork_ok_def)
qed

lemma inv_Match:
  assumes inv: "tt_inv g0 st" and ne: "tt_u st \<noteq> exitVertex g0"
    and edge: "(p, tt_u st) \<in> set (edges g0)"
  shows "tt_inv g0
           \<lparr>tt_graph = (case tt_fork st of None \<Rightarrow> tt_graph st
                        | Some f \<Rightarrow> add_edge (tt_u st) f (tt_graph st))\<lparr>vertexInfoMap := m\<rparr>,
            tt_i = i, tt_u = p, tt_v = Some (tt_u st), tt_fork = None\<rparr>"
proof -
  let ?g = "tt_graph st" and ?u = "tt_u st"
  define g1 where "g1 = (case tt_fork st of None \<Rightarrow> ?g | Some f \<Rightarrow> add_edge ?u f ?g)"
  from inv have ext: "extends g0 ?g" by (simp add: tt_inv_def)
  from inv ne obtain w and v' :: VD where fk: "tt_fork st = None \<or> tt_fork st = Some w"
    and ok: "fork_ok ?g w ?u"
    by (rule tt_inv_running)
  from ok have G: "Good ?g" by (simp add: fork_ok_def)
  from ne ext have ex: "?u \<noteq> exitVertex ?g" by (simp add: extends_def)
  have g1: "Good g1 \<and> extends ?g g1"
  proof (cases "tt_fork st")
    case None
    then show ?thesis using G by (simp add: g1_def)
  next
    case (Some f)
    with fk have "f = w" by simp
    moreover have "Good (add_edge ?u w ?g)"
      using ok ex by (intro Good_add_edge) (simp_all add: fork_ok_def)
    ultimately show ?thesis by (simp add: g1_def Some extends_add_edge)
  qed
  with ext have ext1: "extends g0 g1" by (blast intro: extends_trans)
  with edge have e1: "(p, ?u) \<in> set (edges g1)" by (auto simp: extends_def)
  from g1 e1 have ok1: "fork_ok g1 ?u p" by (simp add: fork_ok_after_match)
  have "p \<in> fst ` set (edges g1)" using e1 by force
  with g1 have "p \<noteq> exitVertex g1" unfolding Good_def by blast
  with ext1 have "p \<noteq> exitVertex g0" by (simp add: extends_def)
  with ok1 ext1 show ?thesis
    unfolding g1_def [symmetric] by (intro tt_inv_intro [where w = ?u]) simp_all
qed

lemma inv_threadBases:
  assumes "extends g0 g" and "fork_ok g w p" and "p \<noteq> exitVertex g0"
  shows "case threadBases sequence bound (g, w, i) of
           (g', f', i') \<Rightarrow>
             tt_inv g0 \<lparr>tt_graph = g', tt_i = i', tt_u = p, tt_v = Some v, tt_fork = Some f'\<rparr>
             \<and> i' = min i bound"
proof -
  obtain g' f' i' where r: "threadBases sequence bound (g, w, i) = (g', f', i')"
    by (cases "threadBases sequence bound (g, w, i)")
  with threadBases_fork [OF assms(2), where sequence = sequence and bound = bound and i = i]
  have "fork_ok g' f' p" "extends g g'" "i' = min i bound" by simp_all
  with assms(1,3) show ?thesis
    unfolding r by (auto intro!: tt_inv_intro [where w = f'] intro: extends_trans)
qed

lemma inv_New:
  assumes "extends g0 g" and "fork_ok g w p" and "p \<noteq> exitVertex g0"
  shows "tt_inv g0
           \<lparr>tt_graph = add_edge (numVertices g) w (snd (addVertex c g)), tt_i = i, tt_u = p,
            tt_v = Some v, tt_fork = Some (numVertices g)\<rparr>"
  using fork_step [OF assms(2), of c] assms(1,3)
  by (auto intro!: tt_inv_intro [where w = "numVertices g"] intro: extends_trans)

lemma tt_loop_stop:
  assumes "tt_inv g0 st" and "tt_u st = enterVertex g0" and "tt_i st = 0"
  shows "\<exists>st'. tt_loop sequence cols mode st = Some (Inr st') \<and> tt_inv g0 st'
           \<and> tt_u st' = enterVertex g0"
proof -
  from assms(1) have "enterVertex (tt_graph st) = enterVertex g0"
    by (simp add: tt_inv_def extends_def)
  with assms have "tt_loop sequence cols mode st = Some (Inr st)"
    by (subst tt_loop.simps) simp
  with assms show ?thesis by simp
qed

lemma tt_loop_unfold:
  assumes "tt_inv g0 st"
    and "tt_step sequence cols mode st = Inr st1"
    and "\<exists>st'. tt_loop sequence cols mode st1 = Some (Inr st') \<and> tt_inv g0 st'
           \<and> tt_u st' = enterVertex g0"
  shows "\<exists>st'. tt_loop sequence cols mode st = Some (Inr st') \<and> tt_inv g0 st'
           \<and> tt_u st' = enterVertex g0"
proof (cases "tt_u st = enterVertex (tt_graph st) \<and> tt_i st = 0")
  case True
  moreover from assms(1) have "enterVertex (tt_graph st) = enterVertex g0"
    by (simp add: tt_inv_def extends_def)
  ultimately show ?thesis using assms(1) by (intro tt_loop_stop) simp_all
next
  case False
  with assms(2) have "tt_loop sequence cols mode st = tt_loop sequence cols mode st1"
    by (subst tt_loop.simps) auto
  with assms(3) show ?thesis by simp
qed

subsection \<open>The traceback loop ends and keeps the graph good\<close>

lemma tt_loop_inv:
  assumes "trace_ok g0 cols mode u i"
  shows "tt_inv g0 st \<Longrightarrow> tt_u st = u \<Longrightarrow> tt_i st = i \<Longrightarrow>
         \<exists>st'. tt_loop sequence cols mode st = Some (Inr st') \<and> tt_inv g0 st'
           \<and> tt_u st' = enterVertex g0"
  using assms
proof (induction arbitrary: st rule: trace_ok.induct)
  case stop
  then show ?case by (intro tt_loop_stop) simp_all
next
  case (startMove u c i)
  from startMove.prems have inv: "tt_inv g0 st" and u: "tt_u st = u" and i: "tt_i st = i"
    by simp_all
  from inv have ext: "extends g0 (tt_graph st)" by (simp add: tt_inv_def)
  from inv u startMove.hyps(4) obtain w and v' :: VD where v: "tt_v st = Some v'"
    and w: "(case tt_fork st of None \<Rightarrow> v' | Some f \<Rightarrow> f) = w"
    and ok: "fork_ok (tt_graph st) w u"
    by (auto elim: tt_inv_running)
  from ok have G: "Good (tt_graph st)" by (simp add: fork_ok_def)
  then have "(w, enterVertex (tt_graph st)) \<notin> (set (edges (tt_graph st)))\<^sup>*"
    using ok unfolding fork_ok_def Good_def by (intro no_path_into_source) auto
  with ok G have ok': "fork_ok (tt_graph st) w (enterVertex g0)"
    using ext by (simp add: fork_ok_def Good_def extends_def)
  have ne: "enterVertex g0 \<noteq> exitVertex g0"
    using G ext by (auto simp: Good_def extends_def)
  obtain g' f' i' where r: "threadBases sequence 0 (tt_graph st, w, i) = (g', f', i')"
    by (cases "threadBases sequence 0 (tt_graph st, w, i)")
  let ?st1 = "\<lparr>tt_graph = g', tt_i = i', tt_u = enterVertex g0, tt_v = Some u,
               tt_fork = Some f'\<rparr>"
  have step: "tt_step sequence cols mode st = Inr ?st1"
    using tt_step_Start [where cols = cols and st = st and c = c and p = "enterVertex g0" and v' = v' and mode = mode and sequence = sequence] startMove.hyps u i v w r
    by simp
  from inv_threadBases [OF ext ok' ne, where sequence = sequence and bound = 0 and i = i and v = u] r
  have inv1: "tt_inv g0 ?st1" and "i' = 0" by auto
  then have "\<exists>st'. tt_loop sequence cols mode ?st1 = Some (Inr st') \<and> tt_inv g0 st'
               \<and> tt_u st' = enterVertex g0"
    by (intro tt_loop_stop) simp_all
  with inv step show ?case by (rule tt_loop_unfold)
next
  case (endMove c i p)
  from endMove.prems have inv: "tt_inv g0 st" and u: "tt_u st = exitVertex g0"
    and i: "tt_i st = i"
    by simp_all
  from inv have ext: "extends g0 (tt_graph st)" and G: "Good (tt_graph st)"
    and init: "tt_v st = None" "tt_fork st = None"
    using u by (simp_all add: tt_inv_def)
  let ?g = "tt_graph st"
  let ?st1 = "\<lparr>tt_graph = ?g, tt_i = i, tt_u = p, tt_v = Some (exitVertex g0),
               tt_fork = Some (exitVertex g0)\<rparr>"
  have ex: "exitVertex ?g = exitVertex g0" using ext by (simp add: extends_def)
  have step: "tt_step sequence cols mode st = Inr ?st1"
    using tt_step_End [where cols = cols and st = st and c = c and p = p and mode = mode and sequence = sequence] endMove.hyps u i init ex by simp
  have "(exitVertex ?g, p) \<notin> (set (edges ?g))\<^sup>*"
    using G endMove.hyps(4) ex unfolding Good_def by (intro no_path_from_sink) auto
  with G ext endMove.hyps(5) have ok: "fork_ok ?g (exitVertex g0) p"
    by (auto simp: fork_ok_def Good_def extends_def)
  with ext endMove.hyps(4) have "tt_inv g0 ?st1"
    by (intro tt_inv_intro [where w = "exitVertex g0"]) simp_all
  then have "\<exists>st'. tt_loop sequence cols mode ?st1 = Some (Inr st') \<and> tt_inv g0 st'
               \<and> tt_u st' = enterVertex g0"
    by (intro endMove.IH) simp_all
  with inv step show ?case by (rule tt_loop_unfold)
next
  case (endMoveLocal c i p pc)
  from endMoveLocal.prems have inv: "tt_inv g0 st" and u: "tt_u st = exitVertex g0"
    and i: "tt_i st = i"
    by simp_all
  from inv have ext: "extends g0 (tt_graph st)" and G: "Good (tt_graph st)"
    and init: "tt_v st = None" "tt_fork st = None"
    using u by (simp_all add: tt_inv_def)
  let ?g = "tt_graph st"
  have ex: "exitVertex ?g = exitVertex g0" using ext by (simp add: extends_def)
  obtain g' f' i' where
    r: "threadBases sequence (ArgMax (ColumnScore pc)) (?g, exitVertex g0, i) = (g', f', i')"
    by (cases "threadBases sequence (ArgMax (ColumnScore pc)) (?g, exitVertex g0, i)")
  let ?st1 = "\<lparr>tt_graph = g', tt_i = i', tt_u = p, tt_v = Some (exitVertex g0),
               tt_fork = Some f'\<rparr>"
  have step: "tt_step sequence cols mode st = Inr ?st1"
    using tt_step_EndLocal [where cols = cols and st = st and c = c and p = p and mode = mode and pc = pc and sequence = sequence] endMoveLocal.hyps u i init ex r
    by simp
  have "(exitVertex ?g, p) \<notin> (set (edges ?g))\<^sup>*"
    using G endMoveLocal.hyps(4) ex unfolding Good_def by (intro no_path_from_sink) auto
  with G ext endMoveLocal.hyps(5) have ok: "fork_ok ?g (exitVertex g0) p"
    by (auto simp: fork_ok_def Good_def extends_def)
  from inv_threadBases [OF ext ok endMoveLocal.hyps(4),
      where sequence = sequence and bound = "ArgMax (ColumnScore pc)" and i = i
        and v = "exitVertex g0"] r
  have "tt_inv g0 ?st1" and "i' = min i (ArgMax (ColumnScore pc))" by auto
  then have "\<exists>st'. tt_loop sequence cols mode ?st1 = Some (Inr st') \<and> tt_inv g0 st'
               \<and> tt_u st' = enterVertex g0"
    by (intro endMoveLocal.IH) simp_all
  with inv step show ?case by (rule tt_loop_unfold)
next
  case (matchMove u c i p)
  from matchMove.prems have inv: "tt_inv g0 st" and u: "tt_u st = u" and i: "tt_i st = i"
    by simp_all
  from tt_step_Match [where cols = cols and st = st and c = c and p = p and mode = mode and sequence = sequence] matchMove.hyps u i
  obtain m where step: "tt_step sequence cols mode st =
      Inr \<lparr>tt_graph = (case tt_fork st of None \<Rightarrow> tt_graph st
                        | Some f \<Rightarrow> add_edge (tt_u st) f (tt_graph st))\<lparr>vertexInfoMap := m\<rparr>,
           tt_i = tt_i st - 1, tt_u = p, tt_v = Some (tt_u st), tt_fork = None\<rparr>"
    by auto
  from inv_Match [OF inv, where p = p and m = m and i = "tt_i st - 1"] matchMove.hyps u
  have "tt_inv g0 \<lparr>tt_graph = (case tt_fork st of None \<Rightarrow> tt_graph st
                        | Some f \<Rightarrow> add_edge (tt_u st) f (tt_graph st))\<lparr>vertexInfoMap := m\<rparr>,
           tt_i = tt_i st - 1, tt_u = p, tt_v = Some (tt_u st), tt_fork = None\<rparr>"
    by simp
  then have "\<exists>st'. tt_loop sequence cols mode
               \<lparr>tt_graph = (case tt_fork st of None \<Rightarrow> tt_graph st
                        | Some f \<Rightarrow> add_edge (tt_u st) f (tt_graph st))\<lparr>vertexInfoMap := m\<rparr>,
                tt_i = tt_i st - 1, tt_u = p, tt_v = Some (tt_u st), tt_fork = None\<rparr>
               = Some (Inr st') \<and> tt_inv g0 st' \<and> tt_u st' = enterVertex g0"
    using i by (intro matchMove.IH) simp_all
  with inv step show ?case by (rule tt_loop_unfold)
next
  case (mismatchMove u c i p)
  from mismatchMove.prems have inv: "tt_inv g0 st" and u: "tt_u st = u" and i: "tt_i st = i"
    by simp_all
  from inv have ext: "extends g0 (tt_graph st)" by (simp add: tt_inv_def)
  from inv u mismatchMove.hyps(6) obtain w
    where w: "(case tt_fork st of None \<Rightarrow> tt_v st | Some f \<Rightarrow> Some f) = Some w"
    and ok: "fork_ok (tt_graph st) w u"
    by (auto elim: tt_inv_running)
  let ?g = "tt_graph st"
  let ?st1 = "\<lparr>tt_graph = add_edge (numVertices ?g) w (snd (addVertex (sequence ! (i - 1)) ?g)),
               tt_i = i - 1, tt_u = p, tt_v = Some u, tt_fork = Some (numVertices ?g)\<rparr>"
  have step: "tt_step sequence cols mode st = Inr ?st1"
    using tt_step_New [where cols = cols and st = st and c = c and p = p and w = w and mode = mode and sequence = sequence] mismatchMove.hyps u i w by simp
  from mismatchMove.hyps(5) ext have e: "(p, u) \<in> set (edges ?g)" by (auto simp: extends_def)
  from fork_ok_pred [OF ok e] ext have "fork_ok ?g w p" "p \<noteq> exitVertex g0"
    by (simp_all add: extends_def)
  with ext have "tt_inv g0 ?st1" by (intro inv_New)
  then have "\<exists>st'. tt_loop sequence cols mode ?st1 = Some (Inr st') \<and> tt_inv g0 st'
               \<and> tt_u st' = enterVertex g0"
    by (intro mismatchMove.IH) simp_all
  with inv step show ?case by (rule tt_loop_unfold)
next
  case (deleteMove u c i p)
  from deleteMove.prems have inv: "tt_inv g0 st" and u: "tt_u st = u" and i: "tt_i st = i"
    by simp_all
  from inv have ext: "extends g0 (tt_graph st)" by (simp add: tt_inv_def)
  from inv u deleteMove.hyps(5) obtain w and v' :: VD
    where w: "(case tt_fork st of None \<Rightarrow> tt_v st | Some f \<Rightarrow> Some f) = Some w"
    and ok: "fork_ok (tt_graph st) w u"
    by (auto elim: tt_inv_running)
  let ?g = "tt_graph st"
  let ?st1 = "\<lparr>tt_graph = ?g, tt_i = i, tt_u = p, tt_v = Some u, tt_fork = Some w\<rparr>"
  have step: "tt_step sequence cols mode st = Inr ?st1"
    using tt_step_Delete [where cols = cols and st = st and c = c and p = p and mode = mode and sequence = sequence] deleteMove.hyps u i w by simp
  from deleteMove.hyps(4) ext have e: "(p, u) \<in> set (edges ?g)" by (auto simp: extends_def)
  from fork_ok_pred [OF ok e] ext have "fork_ok ?g w p" "p \<noteq> exitVertex g0"
    by (simp_all add: extends_def)
  with ext have "tt_inv g0 ?st1" by (intro tt_inv_intro [where w = w]) simp_all
  then have "\<exists>st'. tt_loop sequence cols mode ?st1 = Some (Inr st') \<and> tt_inv g0 st'
               \<and> tt_u st' = enterVertex g0"
    by (intro deleteMove.IH) simp_all
  with inv step show ?case by (rule tt_loop_unfold)
next
  case (extraMove u c i)
  from extraMove.prems have inv: "tt_inv g0 st" and u: "tt_u st = u" and i: "tt_i st = i"
    by simp_all
  from inv have ext: "extends g0 (tt_graph st)" by (simp add: tt_inv_def)
  from inv u extraMove.hyps(5) obtain w
    where w: "(case tt_fork st of None \<Rightarrow> tt_v st | Some f \<Rightarrow> Some f) = Some w"
    and ok: "fork_ok (tt_graph st) w u"
    by (auto elim: tt_inv_running)
  let ?g = "tt_graph st"
  let ?st1 = "\<lparr>tt_graph = add_edge (numVertices ?g) w (snd (addVertex (sequence ! (i - 1)) ?g)),
               tt_i = i - 1, tt_u = u, tt_v = Some u, tt_fork = Some (numVertices ?g)\<rparr>"
  have step: "tt_step sequence cols mode st = Inr ?st1"
    using tt_step_New [where cols = cols and st = st and c = c and p = u and w = w and mode = mode and sequence = sequence] extraMove.hyps u i w by simp
  from ext ok extraMove.hyps(5) have "tt_inv g0 ?st1" by (intro inv_New)
  then have "\<exists>st'. tt_loop sequence cols mode ?st1 = Some (Inr st') \<and> tt_inv g0 st'
               \<and> tt_u st' = enterVertex g0"
    by (intro extraMove.IH) simp_all
  with inv step show ?case by (rule tt_loop_unfold)
qed

lemma fork_ok_tagSpan [simp]: "fork_ok (tagSpan vs a b g) f u = fork_ok g f u"
  by (simp add: tagSpan_def)

lemma tagSpan_fields [simp]:
  "enterVertex (tagSpan vs a b g) = enterVertex g"
  "exitVertex (tagSpan vs a b g) = exitVertex g"
  "edges (tagSpan vs a b g) = edges g"
  "numVertices (tagSpan vs a b g) = numVertices g"
  by (simp_all add: tagSpan_def)

lemma tracebackAndThread_Good:
  assumes "Good g" and "trace_ok g cols mode (exitVertex g) (length sequence)"
  shows "\<exists>g'. tracebackAndThread tsort sequence cols mode g = Some (Inr g') \<and> Good g'
           \<and> extends g g'"
proof -
  from assms(2) obtain exitCol where c: "cols (exitVertex g) = Some exitCol"
    using assms(1) by (cases rule: trace_ok.cases) (auto simp: Good_def)
  let ?st0 = "\<lparr>tt_graph = g, tt_i = length sequence, tt_u = exitVertex g, tt_v = None,
               tt_fork = None\<rparr>"
  have "tt_inv g ?st0" using assms(1) by (simp add: tt_inv_def Good_def)
  with tt_loop_inv [OF assms(2), where st = ?st0 and sequence = sequence]
  obtain st' where l: "tt_loop sequence cols mode ?st0 = Some (Inr st')"
    and inv: "tt_inv g st'" and u: "tt_u st' = enterVertex g"
    by auto
  define g1 where "g1 = (if tt_v st' \<noteq> Some (exitVertex (tt_graph st'))
      then tagSpan (tsort (tt_graph st')) (tt_v st') (PreviousVertex exitCol (length sequence))
             (tt_graph st')
      else tt_graph st')"
  define g2 where "g2 = (case tt_fork st' of None \<Rightarrow> g1 | Some f \<Rightarrow> add_edge (enterVertex g1) f g1)"
  have res: "tracebackAndThread tsort sequence cols mode g = Some (Inr g2)"
    unfolding tracebackAndThread_def g2_def g1_def by (simp add: c l Let_def)
  from inv have G1: "Good g1" and e1: "extends g g1"
    by (simp_all add: g1_def tt_inv_def)
  from assms(1) have ne: "enterVertex g \<noteq> exitVertex g" by (simp add: Good_def)
  have "Good g2 \<and> extends g g2"
  proof (cases "tt_fork st'")
    case None
    with G1 e1 show ?thesis by (simp add: g2_def)
  next
    case (Some f)
    from inv u ne Some have "fork_ok (tt_graph st') f (enterVertex g)"
      by (auto simp: tt_inv_def)
    then have ok: "fork_ok g1 f (enterVertex g1)"
      using e1 by (simp add: g1_def extends_def)
    then have "(f, enterVertex g1) \<notin> (set (edges g1))\<^sup>*"
      unfolding fork_ok_def Good_def by (intro no_path_into_source) auto
    with ok e1 ne have "Good (add_edge (enterVertex g1) f g1)"
      by (intro Good_add_edge) (simp_all add: fork_ok_def extends_def)
    moreover have "extends g1 (add_edge (enterVertex g1) f g1)"
      by (rule extends_add_edge)
    ultimately show ?thesis using e1 by (auto simp: g2_def Some intro: extends_trans)
  qed
  with res show ?thesis by simp
qed

subsection \<open>The first read\<close>

lemma tfr_loop_Good:
  assumes "Good g" and "\<forall>x. u = Some x \<longrightarrow> x < numVertices g \<and> x \<noteq> exitVertex g"
    and "readPos \<noteq> 0 \<longrightarrow> u \<noteq> None"
  shows "\<exists>g' u' s' r'. tfr_loop sequence (g, u, s, readPos) = Inr (g', u', s', r') \<and> Good g'
           \<and> extends g g' \<and> (\<forall>x. u' = Some x \<longrightarrow> x < numVertices g' \<and> x \<noteq> exitVertex g')"
  using assms
proof (induction sequence arbitrary: g u s readPos)
  case Nil
  then show ?case by simp
next
  case (Cons base rest)
  let ?n = "numVertices g" and ?g1 = "snd (addVertex base g)"
  from Cons.prems(1) have G1: "Good ?g1" by (rule Good_addVertex)
  from Cons.prems(1) have n: "?n \<noteq> enterVertex g" "?n \<noteq> exitVertex g"
    and ne: "enterVertex g \<noteq> exitVertex g" and en: "enterVertex g < ?n"
    by (auto simp: Good_def)
  note fresh = fresh_vertex [OF Cons.prems(1)]
  show ?case
  proof (cases "readPos = 0")
    case True
    define g2 where "g2 = add_edge (enterVertex g) ?n ?g1"
    have "(?n, enterVertex g) \<notin> (set (edges g))\<^sup>*"
      using Cons.prems(1) n unfolding Good_def by (intro no_path_into_source) auto
    with G1 n ne en have G2: "Good g2"
      unfolding g2_def by (intro Good_add_edge) simp_all
    have e2: "extends g g2"
      unfolding g2_def by (auto simp: extends_def)
    have "\<exists>g' u' s' r'. tfr_loop rest (g2, Some ?n, Some ?n, readPos + 1) = Inr (g', u', s', r')
            \<and> Good g' \<and> extends g2 g'
            \<and> (\<forall>x. u' = Some x \<longrightarrow> x < numVertices g' \<and> x \<noteq> exitVertex g')"
      using G2 n by (intro Cons.IH) (simp_all add: g2_def)
    moreover have "tfr_loop (base # rest) (g, u, s, readPos)
        = tfr_loop rest (g2, Some ?n, Some ?n, readPos + 1)"
      using True by (simp add: g2_def case_prod_beta)
    ultimately show ?thesis using e2 by (auto intro: extends_trans)
  next
    case False
    with Cons.prems obtain x where x: "u = Some x" "x < ?n" "x \<noteq> exitVertex g" by auto
    define g2 where "g2 = add_edge x ?n ?g1"
    have "(?n, x) \<notin> (set (edges g))\<^sup>*"
      using fresh(1) x(2) by (intro no_path_from_sink) auto
    with G1 n x have G2: "Good g2"
      unfolding g2_def by (intro Good_add_edge) simp_all
    have e2: "extends g g2"
      unfolding g2_def by (auto simp: extends_def)
    have "\<exists>g' u' s' r'. tfr_loop rest (g2, Some ?n, s, readPos + 1) = Inr (g', u', s', r')
            \<and> Good g' \<and> extends g2 g'
            \<and> (\<forall>x. u' = Some x \<longrightarrow> x < numVertices g' \<and> x \<noteq> exitVertex g')"
      using G2 n by (intro Cons.IH) (simp_all add: g2_def)
    moreover have "tfr_loop (base # rest) (g, u, s, readPos)
        = tfr_loop rest (g2, Some ?n, s, readPos + 1)"
      using False x(1) by (simp add: g2_def case_prod_beta)
    ultimately show ?thesis using e2 by (auto intro: extends_trans)
  qed
qed

lemma threadFirstRead_Good:
  assumes "Good g0" and "threadFirstRead tsort sequence g0 = Inr g"
  shows "Good g"
proof -
  from tfr_loop_Good [OF assms(1), where u = None and readPos = 0 and s = None
      and sequence = sequence]
  obtain g' u' s' r' where l: "tfr_loop sequence (g0, None, None, 0) = Inr (g', u', s', r')"
    and G: "Good g'" and u: "\<forall>x. u' = Some x \<longrightarrow> x < numVertices g' \<and> x \<noteq> exitVertex g'"
    by auto
  from assms(2) l obtain x where x: "u' = Some x"
    and g: "g = tagSpan (tsort (add_edge x (exitVertex g') g')) s' u'
                  (add_edge x (exitVertex g') g')"
    by (auto simp: threadFirstRead_def Let_def split: option.splits)
  from u x have xx: "x < numVertices g'" "x \<noteq> exitVertex g'" by simp_all
  have "(exitVertex g', x) \<notin> (set (edges g'))\<^sup>*"
    using G xx unfolding Good_def by (intro no_path_from_sink) auto
  with G xx have "Good (add_edge x (exitVertex g') g')"
    by (intro Good_add_edge) (auto simp: Good_def)
  then show ?thesis by (simp add: g)
qed

lemma Good_newGraph: "Good newGraph"
  by (simp add: Good_def newGraph_def acyclic_def)

lemma threaded_Good: "threaded tsort g \<Longrightarrow> Good g"
proof (induction rule: threaded.induct)
  case (first_read sequence g)
  with Good_newGraph show ?case by (rule threadFirstRead_Good)
next
  case (next_read g cols mode sequence g')
  from tracebackAndThread_Good [OF next_read.IH next_read.hyps(2), of tsort] next_read.hyps(3)
  show ?case by auto
qed

lemma acyclic_edge_order:
  assumes "acyclic (set es)" and "k < length es"
  shows "(snd (es ! k), fst (es ! k)) \<notin> (set (take k es))\<^sup>*"
proof -
  obtain a b where ab: "es ! k = (a, b)" by (cases "es ! k")
  have "set (take (Suc k) es) \<subseteq> set es" by (rule set_take_subset)
  with assms(1) have "acyclic (set (take (Suc k) es))" by (rule acyclic_subset)
  moreover have "set (take (Suc k) es) = insert (a, b) (set (take k es))"
    using assms(2) ab by (simp add: take_Suc_conv_app_nth)
  ultimately show ?thesis using ab by simp
qed

text \<open>
  Claim C4.  After the first read is threaded linearly and any number of further reads are
  threaded by traceback, the graph is acyclic, and in the order in which the edges were
  added every edge enters a vertex that cannot reach the vertex it leaves in the graph
  built until then.  The next traceback over columns whose walk is well formed ends and
  returns a graph.
\<close>

theorem threading_keeps_acyclic:
  assumes "threaded tsort g"
  shows "acyclic (set (edges g))
     \<and> (\<forall>k<length (edges g).
           (snd (edges g ! k), fst (edges g ! k)) \<notin> (set (take k (edges g)))\<^sup>*)
     \<and> (\<forall>sequence cols mode. trace_ok g cols mode (exitVertex g) (length sequence) \<longrightarrow>
           (\<exists>g'. tracebackAndThread tsort sequence cols mode g = Some (Inr g')))"
proof -
  from assms have G: "Good g" by (rule threaded_Good)
  then have a: "acyclic (set (edges g))" by (simp add: Good_def)
  moreover from a have "\<forall>k<length (edges g).
      (snd (edges g ! k), fst (edges g ! k)) \<notin> (set (take k (edges g)))\<^sup>*"
    by (simp add: acyclic_edge_order)
  moreover from G have "\<forall>sequence cols mode.
      trace_ok g cols mode (exitVertex g) (length sequence) \<longrightarrow>
      (\<exists>g'. tracebackAndThread tsort sequence cols mode g = Some (Inr g'))"
    using tracebackAndThread_Good by blast
  ultimately show ?thesis by simp
qed

theorem threading_keeps_acyclic_witness:
  "threadFirstRead chainSort ''GGG'' newGraph = Inr graphGGG
   \<and> trace_ok graphGGG columnsTGGG GLOBAL (exitVertex graphGGG) (length ''TGGG'')
   \<and> tracebackAndThread chainSort ''TGGG'' columnsTGGG GLOBAL graphGGG = Some (Inr graphTGGG)
   \<and> edges graphTGGG = [(0, 2), (2, 3), (3, 4), (4, 1), (5, 2), (0, 5)]
   \<and> threaded chainSort graphTGGG
   \<and> acyclic (set (edges graphTGGG))
   \<and> (2, 5) \<notin> (set [(0, 2), (2, 3), (3, 4), (4, 1 :: nat)])\<^sup>*"
proof -
  have "case threadFirstRead chainSort ''GGG'' newGraph of Inr g \<Rightarrow> True | Inl e \<Rightarrow> False"
    by code_simp
  then have f: "threadFirstRead chainSort ''GGG'' newGraph = Inr graphGGG"
    by (simp add: graphGGG_def split: sum.splits)
  have e1: "edges graphGGG = [(0, 2), (2, 3), (3, 4), (4, 1)]" "enterVertex graphGGG = 0"
    "exitVertex graphGGG = 1" "numVertices graphGGG = 5"
    by code_simp+
  have t0: "trace_ok graphGGG columnsTGGG GLOBAL 0 0"
    using trace_ok.stop [of graphGGG columnsTGGG GLOBAL] e1 by simp
  have t1: "trace_ok graphGGG columnsTGGG GLOBAL 0 1"
    by (rule trace_ok.extraMove [where c = "the (columnsTGGG 0)"])
      (use e1 t0 in \<open>simp_all add: columnsTGGG_def column_def\<close>)
  have t2: "trace_ok graphGGG columnsTGGG GLOBAL 2 2"
    by (rule trace_ok.matchMove [where c = "the (columnsTGGG 2)" and p = 0])
      (use e1 t1 in \<open>simp_all add: columnsTGGG_def column_def\<close>)
  have t3: "trace_ok graphGGG columnsTGGG GLOBAL 3 3"
    by (rule trace_ok.matchMove [where c = "the (columnsTGGG 3)" and p = 2])
      (use e1 t2 in \<open>simp_all add: columnsTGGG_def column_def\<close>)
  have t4: "trace_ok graphGGG columnsTGGG GLOBAL 4 4"
    by (rule trace_ok.matchMove [where c = "the (columnsTGGG 4)" and p = 3])
      (use e1 t3 in \<open>simp_all add: columnsTGGG_def column_def\<close>)
  have "trace_ok graphGGG columnsTGGG GLOBAL (exitVertex graphGGG) 4"
    by (rule trace_ok.endMove [where c = "the (columnsTGGG 1)" and p = 4])
      (use e1 t4 in \<open>simp_all add: columnsTGGG_def column_def\<close>)
  moreover have "length ''TGGG'' = 4"
    by simp
  ultimately
  have tr: "trace_ok graphGGG columnsTGGG GLOBAL (exitVertex graphGGG) (length ''TGGG'')"
    by (simp only:)
  have "case tracebackAndThread chainSort ''TGGG'' columnsTGGG GLOBAL graphGGG of
          Some (Inr g) \<Rightarrow> True | _ \<Rightarrow> False"
    by code_simp
  then have t: "tracebackAndThread chainSort ''TGGG'' columnsTGGG GLOBAL graphGGG
      = Some (Inr graphTGGG)"
    by (simp add: graphTGGG_def split: option.splits sum.splits)
  have e2: "edges graphTGGG = [(0, 2), (2, 3), (3, 4), (4, 1), (5, 2), (0, 5)]"
    by code_simp
  have th: "threaded chainSort graphTGGG"
    by (rule threaded.next_read [OF threaded.first_read [OF f] tr t])
  note inst = threading_keeps_acyclic [OF th]
  from inst have a: "acyclic (set (edges graphTGGG))"
    by simp
  from inst have "4 < length (edges graphTGGG) \<longrightarrow>
      (snd (edges graphTGGG ! 4), fst (edges graphTGGG ! 4))
        \<notin> (set (take 4 (edges graphTGGG)))\<^sup>*"
    by blast
  then have b: "(2, 5) \<notin> (set [(0, 2), (2, 3), (3, 4), (4, 1 :: nat)])\<^sup>*"
    by (simp add: e2)
  from f tr t e2 th a b show ?thesis
    by simp
qed

end
